theory Spec2Isabelle
  imports Main
begin

unbundle bit_operations_syntax

section \<open>Python values shared by both converters\<close>

text \<open>
  The two font converters \<^verbatim>\<open>tools/bdf2fnt.py\<close> and \<^verbatim>\<open>tools/ttf2fnt.py\<close> are embedded
  function by function. Python integers are unbounded (\<^typ>\<open>int\<close>, or \<^typ>\<open>nat\<close> for counts
  and indices that are never negative), a byte string is a list of numbers below 256, and
  every exception the code can raise is a value of \<open>error\<close>.
\<close>

datatype error = ValueError | IndexError | StructError

type_synonym bytes = "nat list"

text \<open>
  An index into a sequence of \<open>n\<close> elements: Python counts a negative index from the end,
  and an index outside \<open>-n \<dots> n - 1\<close> raises \<^verbatim>\<open>IndexError\<close>.
\<close>

definition py_index :: "nat \<Rightarrow> int \<Rightarrow> nat option" where
  "py_index n i =
     (if 0 \<le> i \<and> i < int n then Some (nat i)
      else if - int n \<le> i \<and> i < 0 then Some (nat (int n + i))
      else None)"

text \<open>\<^verbatim>\<open>xs[i] = v\<close>\<close>

definition list_set :: "'a list \<Rightarrow> int \<Rightarrow> 'a \<Rightarrow> error + 'a list" where
  "list_set xs i v =
     (case py_index (length xs) i of None \<Rightarrow> Inl IndexError | Some j \<Rightarrow> Inr (xs[j := v]))"

text \<open>\<^verbatim>\<open>xs[i]\<close>\<close>

definition list_get :: "'a list \<Rightarrow> int \<Rightarrow> error + 'a" where
  "list_get xs i =
     (case py_index (length xs) i of None \<Rightarrow> Inl IndexError | Some j \<Rightarrow> Inr (xs ! j))"

section \<open>The bit packer\<close>

subsection \<open>Fixed canvas (\<^verbatim>\<open>bdf2fnt.render_glyph_to_fixed_size\<close>, lines 176 to 188)\<close>

text \<open>
  \<^verbatim>\<open>for i, bit in enumerate(bits): if bit: result[i // 8] |= (0x80 >> (i % 8))\<close>
\<close>

fun pack_loop :: "nat \<Rightarrow> nat list \<Rightarrow> bytes \<Rightarrow> error + bytes" where
  "pack_loop i [] result = Inr result"
| "pack_loop i (b # bits) result =
     (if b \<noteq> 0 then
        (case list_get result (int (i div 8)) of
           Inl e \<Rightarrow> Inl e
         | Inr old \<Rightarrow>
             (case list_set result (int (i div 8)) (old OR drop_bit (i mod 8) 0x80) of
                Inl e \<Rightarrow> Inl e
              | Inr result' \<Rightarrow> pack_loop (Suc i) bits result'))
      else pack_loop (Suc i) bits result)"

definition pack_canvas :: "nat list list \<Rightarrow> error + bytes" where
  "pack_canvas canvas =
     (let bits = concat canvas;
          byte_count = (length bits + 7) div 8
      in pack_loop 0 bits (replicate byte_count 0))"

subsection \<open>Variable crop (\<^verbatim>\<open>ttf2fnt.render_glyph\<close>, lines 120 to 139)\<close>

text \<open>
  The loop keeps the bytes already complete, the byte being filled and the position of the
  next bit in it; \<open>bit_pos\<close> stays below 8, so the shift \<^verbatim>\<open>1 << (7 - bit_pos)\<close> is never
  negative.
\<close>

fun pack_pixels :: "nat list \<Rightarrow> bytes \<Rightarrow> nat \<Rightarrow> nat \<Rightarrow> bytes \<times> nat \<times> nat" where
  "pack_pixels [] packed byte bit_pos = (packed, byte, bit_pos)"
| "pack_pixels (pixel # pixels) packed byte bit_pos =
     (let byte' = (if pixel \<noteq> 0 then byte OR push_bit (7 - bit_pos) 1 else byte);
          bit_pos' = bit_pos + 1
      in if bit_pos' = 8 then pack_pixels pixels (packed @ [byte']) 0 0
         else pack_pixels pixels packed byte' bit_pos')"

definition pack_bits :: "nat list \<Rightarrow> bytes" where
  "pack_bits pixels =
     (case pack_pixels pixels [] 0 0 of
        (packed, byte, bit_pos) \<Rightarrow> if bit_pos > 0 then packed @ [byte] else packed)"

section \<open>Python strings and \<^verbatim>\<open>struct.pack\<close>\<close>

text \<open>
  The bitmap font description is opened with \<^verbatim>\<open>encoding='latin-1'\<close>, so every character is one
  of the 256 values of \<^typ>\<open>char\<close>. \<^verbatim>\<open>str.strip()\<close> and \<^verbatim>\<open>str.split()\<close> treat the same characters
  as white space: tab, line feed, vertical tab, form feed, carriage return, the four
  separators 28 to 31, the space, and in the upper half NEL (133) and the no-break space (160).
\<close>

definition isspace :: "char \<Rightarrow> bool" where
  "isspace c = ((of_char c :: nat) \<in> set [9, 10, 11, 12, 13, 28, 29, 30, 31, 32, 133, 160])"

definition strip :: "string \<Rightarrow> string" where
  "strip s = rev (dropWhile isspace (rev (dropWhile isspace s)))"

text \<open>\<^verbatim>\<open>s.split()\<close>: the maximal runs of characters that are not white space.\<close>

fun split_from :: "string \<Rightarrow> string \<Rightarrow> string list" where
  "split_from cur [] = (if cur = [] then [] else [cur])"
| "split_from cur (c # cs) =
     (if isspace c then (if cur = [] then split_from [] cs else cur # split_from [] cs)
      else split_from (cur @ [c]) cs)"

definition split :: "string \<Rightarrow> string list" where
  "split s = split_from [] s"

definition startswith :: "string \<Rightarrow> string \<Rightarrow> bool" where
  "startswith s p = (take (length p) s = p)"

text \<open>
  \<^verbatim>\<open>int(s)\<close> and \<^verbatim>\<open>int(s, 16)\<close>: surrounding white space, one optional sign, for base 16 an
  optional \<^verbatim>\<open>0x\<close> prefix, then digits, where single underscores may separate digits (and one
  may follow the prefix). Anything else raises \<^verbatim>\<open>ValueError\<close>.
\<close>

definition digit_val :: "nat \<Rightarrow> char \<Rightarrow> nat option" where
  "digit_val base c =
     (let n = (of_char c :: nat);
          v = (if 48 \<le> n \<and> n \<le> 57 then Some (n - 48)
               else if 97 \<le> n \<and> n \<le> 122 then Some (n - 87)
               else if 65 \<le> n \<and> n \<le> 90 then Some (n - 55)
               else None)
      in case v of None \<Rightarrow> None | Some d \<Rightarrow> if d < base then Some d else None)"

fun digits_val :: "nat \<Rightarrow> bool \<Rightarrow> nat \<Rightarrow> string \<Rightarrow> nat option" where
  "digits_val base after_digit acc [] = (if after_digit then Some acc else None)"
| "digits_val base after_digit acc (c # cs) =
     (if c = CHR ''_'' then (if after_digit then digits_val base False acc cs else None)
      else (case digit_val base c of
              None \<Rightarrow> None
            | Some d \<Rightarrow> digits_val base True (acc * base + d) cs))"

definition py_int :: "nat \<Rightarrow> string \<Rightarrow> error + int" where
  "py_int base s =
     (let t = strip s;
          neg = startswith t ''-'';
          u = (if startswith t ''-'' \<or> startswith t ''+'' then drop 1 t else t);
          v = (if base = 16 \<and> (startswith u ''0x'' \<or> startswith u ''0X'')
               then (if startswith (drop 2 u) ''_'' then digits_val base False 0 (drop 3 u)
                     else digits_val base False 0 (drop 2 u))
               else digits_val base False 0 u)
      in case v of
           None \<Rightarrow> Inl ValueError
         | Some n \<Rightarrow> Inr (if neg then - int n else int n))"

text \<open>\<^verbatim>\<open>int(line.split()[k])\<close>.\<close>

definition int_field :: "string list \<Rightarrow> int \<Rightarrow> error + int" where
  "int_field parts k = (case list_get parts k of Inl e \<Rightarrow> Inl e | Inr w \<Rightarrow> py_int 10 w)"

text \<open>
  \<^verbatim>\<open>struct.pack\<close> with the little-endian unsigned formats \<^verbatim>\<open>B\<close>, \<^verbatim>\<open>H\<close> and \<^verbatim>\<open>I\<close> (1, 2 and 4
  bytes): a value outside the range of the format raises \<^verbatim>\<open>struct.error\<close>.
\<close>

fun le_bytes :: "nat \<Rightarrow> nat \<Rightarrow> bytes" where
  "le_bytes 0 v = []"
| "le_bytes (Suc n) v = (v mod 256) # le_bytes n (v div 256)"

definition pack_uint :: "nat \<Rightarrow> int \<Rightarrow> error + bytes" where
  "pack_uint n v = (if 0 \<le> v \<and> v < 256 ^ n then Inr (le_bytes n (nat v)) else Inl StructError)"

text \<open>Reading an unsigned little-endian field back, as the firmware does.\<close>

fun le_value :: "bytes \<Rightarrow> nat" where
  "le_value [] = 0"
| "le_value (b # bs) = b + 256 * le_value bs"

definition read_uint :: "bytes \<Rightarrow> nat \<Rightarrow> nat \<Rightarrow> nat" where
  "read_uint file pos n = le_value (take n (drop pos file))"

text \<open>\<^verbatim>\<open>b'TFNT'\<close>\<close>

definition FONT_MAGIC :: bytes where
  "FONT_MAGIC = [0x54, 0x46, 0x4E, 0x54]"

definition FONT_VERSION :: int where
  "FONT_VERSION = 1"

text \<open>
  What a run of a converter leaves behind: how the function ended, and the content of the
  output file, \<open>None\<close> when the output path was never opened.
\<close>

datatype status = Returned_None | Returned_True | Returned_False | Raised error

type_synonym outcome = "status \<times> bytes option"

section \<open>The bitmap source adapter (\<^verbatim>\<open>bdf2fnt.parse_bdf\<close>)\<close>

text \<open>
  The dictionary \<^verbatim>\<open>properties\<close> has at most seven keys; a key that was never assigned is
  \<open>None\<close>. A retained glyph is the dictionary appended at lines 104 to 112.
\<close>

record properties =
  fbb_width :: "int option"
  fbb_height :: "int option"
  fbb_x :: "int option"
  fbb_y :: "int option"
  ascent :: "int option"
  descent :: "int option"
  char_count :: "int option"

definition no_properties :: properties where
  "no_properties = \<lparr>fbb_width = None, fbb_height = None, fbb_x = None, fbb_y = None,
     ascent = None, descent = None, char_count = None\<rparr>"

record glyph =
  encoding :: int
  dwidth :: int
  bbx_w :: int
  bbx_h :: int
  bbx_x :: int
  bbx_y :: int
  bitmap :: "int list"

text \<open>The local variables of one pass of the inner loop (lines 71 to 74).\<close>

record block =
  blk_encoding :: "int option"
  blk_dwidth :: int
  blk_bbx_w :: int
  blk_bbx_h :: int
  blk_bbx_x :: int
  blk_bbx_y :: int
  blk_rows :: "int list"

definition new_block :: block where
  "new_block = \<lparr>blk_encoding = None, blk_dwidth = 0, blk_bbx_w = 0, blk_bbx_h = 0,
     blk_bbx_x = 0, blk_bbx_y = 0, blk_rows = []\<rparr>"

text \<open>
  The loops share the cursor \<^verbatim>\<open>i\<close> into \<^verbatim>\<open>lines\<close>; here each loop takes the lines from the
  cursor on and returns the lines that are left.

  Lines 92 to 97, the rows after \<^verbatim>\<open>BITMAP\<close>: the loop stops in front of the first line that
  strips to \<^verbatim>\<open>ENDCHAR\<close>, or at the end of the file.
\<close>

fun read_rows :: "string list \<Rightarrow> int list \<Rightarrow> error + (int list \<times> string list)" where
  "read_rows [] bitmap_rows = Inr (bitmap_rows, [])"
| "read_rows (l # ls) bitmap_rows =
     (if strip l = ''ENDCHAR'' then Inr (bitmap_rows, l # ls)
      else (let hex_str = strip l in
            if hex_str \<noteq> [] then
              (case py_int 16 hex_str of
                 Inl e \<Rightarrow> Inl e
               | Inr row_val \<Rightarrow> read_rows ls (bitmap_rows @ [row_val]))
            else read_rows ls bitmap_rows))"

text \<open>
  Lines 77 to 100, the inner loop. Only \<^verbatim>\<open>BITMAP\<close> leaves it (through \<^verbatim>\<open>break\<close>, with the
  cursor on the \<^verbatim>\<open>ENDCHAR\<close> line); no other line ends a block, not even \<^verbatim>\<open>ENDCHAR\<close> or the
  next \<^verbatim>\<open>STARTCHAR\<close>.
\<close>

fun scan_glyph :: "string list \<Rightarrow> block \<Rightarrow> error + (block \<times> string list)" where
  "scan_glyph [] blk = Inr (blk, [])"
| "scan_glyph (l # ls) blk =
     (let gline = strip l in
      if startswith gline ''ENCODING '' then
        (case int_field (split gline) 1 of
           Inl e \<Rightarrow> Inl e
         | Inr v \<Rightarrow> scan_glyph ls (blk\<lparr>blk_encoding := Some v\<rparr>))
      else if startswith gline ''DWIDTH '' then
        (case int_field (split gline) 1 of
           Inl e \<Rightarrow> Inl e
         | Inr v \<Rightarrow> scan_glyph ls (blk\<lparr>blk_dwidth := v\<rparr>))
      else if startswith gline ''BBX '' then
        (let parts = split gline in
         case int_field parts 1 of Inl e \<Rightarrow> Inl e | Inr w \<Rightarrow>
        (case int_field parts 2 of Inl e \<Rightarrow> Inl e | Inr h \<Rightarrow>
        (case int_field parts 3 of Inl e \<Rightarrow> Inl e | Inr x \<Rightarrow>
        (case int_field parts 4 of Inl e \<Rightarrow> Inl e | Inr y \<Rightarrow>
           scan_glyph ls
             (blk\<lparr>blk_bbx_w := w, blk_bbx_h := h, blk_bbx_x := x, blk_bbx_y := y\<rparr>)))))
      else if gline = ''BITMAP'' then
        (case read_rows ls (blk_rows blk) of
           Inl e \<Rightarrow> Inl e
         | Inr (bitmap_rows, rest) \<Rightarrow> Inr (blk\<lparr>blk_rows := bitmap_rows\<rparr>, rest))
      else scan_glyph ls blk)"

text \<open>Lines 102 to 112: a block is kept when an encoding was seen and is not negative.\<close>

definition retain :: "block \<Rightarrow> glyph list \<Rightarrow> glyph list" where
  "retain blk glyphs =
     (case blk_encoding blk of
        None \<Rightarrow> glyphs
      | Some e \<Rightarrow>
          if e \<ge> 0 then
            glyphs @ [\<lparr>encoding = e, dwidth = blk_dwidth blk, bbx_w = blk_bbx_w blk,
                        bbx_h = blk_bbx_h blk, bbx_x = blk_bbx_x blk, bbx_y = blk_bbx_y blk,
                        bitmap = blk_rows blk\<rparr>]
          else glyphs)"

lemma read_rows_shorter:
  "read_rows ls rows = Inr (rows', rest) \<Longrightarrow> length rest \<le> length ls"
proof (induction ls arbitrary: rows)
  case Nil
  then show ?case by simp
next
  case (Cons l ls)
  show ?case
  proof (cases "strip l = ''ENDCHAR''")
    case True
    with Cons.prems show ?thesis by auto
  next
    case False
    with Cons.prems obtain rows2 where "read_rows ls rows2 = Inr (rows', rest)"
      by (auto simp: Let_def split: if_splits sum.splits)
    from Cons.IH[OF this] show ?thesis by simp
  qed
qed

lemma scan_glyph_shorter:
  "scan_glyph ls blk = Inr (blk', rest) \<Longrightarrow> length rest \<le> length ls"
proof (induction ls arbitrary: blk)
  case Nil
  then show ?case by simp
next
  case (Cons l ls)
  show ?case
  proof (cases "strip l = ''BITMAP''")
    case True
    then have "\<not> startswith (strip l) ''ENCODING ''" "\<not> startswith (strip l) ''DWIDTH ''"
      "\<not> startswith (strip l) ''BBX ''" by (simp_all add: startswith_def)
    with True Cons.prems obtain rows where "read_rows ls (blk_rows blk) = Inr (rows, rest)"
      by (auto simp: Let_def split: sum.splits prod.splits)
    from read_rows_shorter[OF this] show ?thesis by simp
  next
    case False
    with Cons.prems obtain blk2 where "scan_glyph ls blk2 = Inr (blk', rest)"
      by (auto simp: Let_def split: if_splits sum.splits)
    from Cons.IH[OF this] show ?thesis by simp
  qed
qed

text \<open>
  Lines 52 to 114, the outer loop. After the inner loop the cursor moves one line further
  (line 114), past the \<^verbatim>\<open>ENDCHAR\<close> line on which \<^verbatim>\<open>break\<close> left it.
\<close>

function parse_loop ::
  "string list \<Rightarrow> properties \<Rightarrow> glyph list \<Rightarrow> error + (properties \<times> glyph list)" where
  "parse_loop [] props glyphs = Inr (props, glyphs)"
| "parse_loop (l # ls) props glyphs =
     (let line = strip l in
      if startswith line ''FONTBOUNDINGBOX '' then
        (let parts = split line in
         case int_field parts 1 of Inl e \<Rightarrow> Inl e | Inr w \<Rightarrow>
        (case int_field parts 2 of Inl e \<Rightarrow> Inl e | Inr h \<Rightarrow>
        (case int_field parts 3 of Inl e \<Rightarrow> Inl e | Inr x \<Rightarrow>
        (case int_field parts 4 of Inl e \<Rightarrow> Inl e | Inr y \<Rightarrow>
           parse_loop ls (props\<lparr>fbb_width := Some w, fbb_height := Some h,
                                  fbb_x := Some x, fbb_y := Some y\<rparr>) glyphs))))
      else if startswith line ''FONT_ASCENT '' then
        (case int_field (split line) 1 of
           Inl e \<Rightarrow> Inl e
         | Inr v \<Rightarrow> parse_loop ls (props\<lparr>ascent := Some v\<rparr>) glyphs)
      else if startswith line ''FONT_DESCENT '' then
        (case int_field (split line) 1 of
           Inl e \<Rightarrow> Inl e
         | Inr v \<Rightarrow> parse_loop ls (props\<lparr>descent := Some v\<rparr>) glyphs)
      else if startswith line ''CHARS '' then
        (case int_field (split line) 1 of
           Inl e \<Rightarrow> Inl e
         | Inr v \<Rightarrow> parse_loop ls (props\<lparr>char_count := Some v\<rparr>) glyphs)
      else if startswith line ''STARTCHAR '' then
        (case scan_glyph ls new_block of
           Inl e \<Rightarrow> Inl e
         | Inr (blk, rest) \<Rightarrow> parse_loop (drop 1 rest) props (retain blk glyphs))
      else parse_loop ls props glyphs)"
  by pat_completeness auto
termination
proof (relation "measure (\<lambda>(ls, props, glyphs). length ls)")
  show "wf (measure (\<lambda>(ls, props, glyphs). length ls))" by simp
qed (auto dest!: scan_glyph_shorter)

text \<open>\<^verbatim>\<open>parse_bdf\<close>, on the lines that \<^verbatim>\<open>readlines()\<close> returned.\<close>

definition parse_bdf :: "string list \<Rightarrow> error + (properties \<times> glyph list)" where
  "parse_bdf lines = parse_loop lines no_properties []"

section \<open>The placement engine (\<^verbatim>\<open>bdf2fnt.render_glyph_to_fixed_size\<close>)\<close>

type_synonym canvas = "nat list list"

text \<open>
  \<^verbatim>\<open>canvas[canvas_y][canvas_x] = 1\<close>. The rows of the canvas are separate lists (line 138 builds
  each in its own pass of the comprehension), so the write changes one row only.
\<close>

definition canvas_put :: "canvas \<Rightarrow> int \<Rightarrow> int \<Rightarrow> error + canvas" where
  "canvas_put canvas canvas_y canvas_x =
     (case list_get canvas canvas_y of
        Inl e \<Rightarrow> Inl e
      | Inr row \<Rightarrow>
          (case list_set row canvas_x 1 of
             Inl e \<Rightarrow> Inl e
           | Inr row' \<Rightarrow> list_set canvas canvas_y row'))"

text \<open>\<^verbatim>\<open>a >> n\<close> on Python integers: an arithmetic shift; a negative count raises.\<close>

definition rshift :: "int \<Rightarrow> int \<Rightarrow> error + int" where
  "rshift a n = (if n < 0 then Inl ValueError else Inr (drop_bit (nat n) a))"

text \<open>Lines 163 to 174: \<^verbatim>\<open>for bit_idx in range(bbx_w)\<close>, over the indices still to visit.\<close>

fun copy_row ::
  "int \<Rightarrow> int \<Rightarrow> int \<Rightarrow> int \<Rightarrow> int \<Rightarrow> nat list \<Rightarrow> canvas \<Rightarrow> error + canvas" where
  "copy_row w glyph_left_x target_width row_val canvas_y [] canvas = Inr canvas"
| "copy_row w glyph_left_x target_width row_val canvas_y (bit_idx # rest) canvas =
     (let canvas_x = glyph_left_x + int bit_idx in
      if canvas_x < 0 \<or> canvas_x \<ge> target_width then
        copy_row w glyph_left_x target_width row_val canvas_y rest canvas
      else
        (let byte_width = (w + 7) div 8 * 8;
             bit_pos = byte_width - 1 - int bit_idx
         in case rshift row_val bit_pos of
              Inl e \<Rightarrow> Inl e
            | Inr v \<Rightarrow>
                if v AND 1 \<noteq> 0 then
                  (case canvas_put canvas canvas_y canvas_x of
                     Inl e \<Rightarrow> Inl e
                   | Inr canvas' \<Rightarrow>
                       copy_row w glyph_left_x target_width row_val canvas_y rest canvas')
                else copy_row w glyph_left_x target_width row_val canvas_y rest canvas))"

text \<open>Lines 156 to 174: \<^verbatim>\<open>for row_idx, row_val in enumerate(bitmap)\<close>.\<close>

fun copy_rows ::
  "int \<Rightarrow> int \<Rightarrow> int \<Rightarrow> int \<Rightarrow> int \<Rightarrow> nat \<Rightarrow> int list \<Rightarrow> canvas \<Rightarrow> error + canvas" where
  "copy_rows w glyph_left_x glyph_top_y target_width target_height row_idx [] canvas = Inr canvas"
| "copy_rows w glyph_left_x glyph_top_y target_width target_height row_idx (row_val # rows) canvas =
     (let canvas_y = glyph_top_y + int row_idx in
      if canvas_y < 0 \<or> canvas_y \<ge> target_height then
        copy_rows w glyph_left_x glyph_top_y target_width target_height (Suc row_idx) rows canvas
      else
        (case copy_row w glyph_left_x target_width row_val canvas_y [0..<nat w] canvas of
           Inl e \<Rightarrow> Inl e
         | Inr canvas' \<Rightarrow>
             copy_rows w glyph_left_x glyph_top_y target_width target_height (Suc row_idx) rows
               canvas'))"

text \<open>Lines 131 to 174: the canvas before it is packed.\<close>

definition place_glyph :: "glyph \<Rightarrow> int \<Rightarrow> int \<Rightarrow> int \<Rightarrow> error + canvas" where
  "place_glyph g target_width target_height font_ascent =
     (let canvas = replicate (nat target_height) (replicate (nat target_width) 0) in
      if bbx_w g = 0 \<or> bbx_h g = 0 \<or> bitmap g = [] then Inr canvas
      else
        (let baseline_y = font_ascent - 1;
             glyph_top_y = baseline_y - (bbx_y g + bbx_h g - 1);
             glyph_left_x = bbx_x g
         in copy_rows (bbx_w g) glyph_left_x glyph_top_y target_width target_height 0
              (bitmap g) canvas))"

definition render_glyph_to_fixed_size ::
  "glyph \<Rightarrow> int \<Rightarrow> int \<Rightarrow> int \<Rightarrow> int \<Rightarrow> error + bytes" where
  "render_glyph_to_fixed_size g target_width target_height font_ascent font_descent =
     (case place_glyph g target_width target_height font_ascent of
        Inl e \<Rightarrow> Inl e
      | Inr canvas \<Rightarrow> pack_canvas canvas)"

section \<open>The fixed-format encoder (\<^verbatim>\<open>bdf2fnt.create_fnt_file\<close>)\<close>

text \<open>Lines 203 and 204: \<^verbatim>\<open>properties.get\<close> with its defaults.\<close>

definition font_ascent_of :: "properties \<Rightarrow> int" where
  "font_ascent_of props =
     (case ascent props of
        Some a \<Rightarrow> a
      | None \<Rightarrow> (case fbb_height props of Some h \<Rightarrow> h | None \<Rightarrow> 9))"

definition font_descent_of :: "properties \<Rightarrow> int" where
  "font_descent_of props = (case descent props of Some d \<Rightarrow> d | None \<Rightarrow> 0)"

text \<open>Lines 206 to 209: the canvas size, \<open>None\<close> for an option the command line left out.\<close>

definition target_width_of :: "properties \<Rightarrow> int option \<Rightarrow> int" where
  "target_width_of props target_width =
     (case target_width of
        Some w \<Rightarrow> w
      | None \<Rightarrow> (case fbb_width props of Some w \<Rightarrow> w | None \<Rightarrow> 9))"

definition target_height_of :: "properties \<Rightarrow> int option \<Rightarrow> int" where
  "target_height_of props target_height =
     (case target_height of
        Some h \<Rightarrow> h
      | None \<Rightarrow> font_ascent_of props + font_descent_of props)"

text \<open>Lines 214 and 215; \<^verbatim>\<open>list.sort\<close> is stable, as \<^const>\<open>sort_key\<close> is.\<close>

definition valid_glyphs :: "glyph list \<Rightarrow> glyph list" where
  "valid_glyphs glyphs =
     sort_key encoding (filter (\<lambda>g. 0 < encoding g \<and> encoding g \<le> 65535) glyphs)"

text \<open>Lines 221 to 224.\<close>

fun render_all :: "glyph list \<Rightarrow> int \<Rightarrow> int \<Rightarrow> int \<Rightarrow> int \<Rightarrow> error + (int \<times> bytes) list" where
  "render_all [] tw th fa fd = Inr []"
| "render_all (g # gs) tw th fa fd =
     (case render_glyph_to_fixed_size g tw th fa fd of
        Inl e \<Rightarrow> Inl e
      | Inr bm \<Rightarrow>
          (case render_all gs tw th fa fd of
             Inl e \<Rightarrow> Inl e
           | Inr rendered \<Rightarrow> Inr ((encoding g, bm) # rendered)))"

text \<open>\<^verbatim>\<open>struct.pack('<4sBBBBII', magic, version, a, b, flags, count, aux)\<close>, the 16-byte header.\<close>

definition pack_header :: "int \<Rightarrow> int \<Rightarrow> int \<Rightarrow> int \<Rightarrow> int \<Rightarrow> int \<Rightarrow> error + bytes" where
  "pack_header version a b flags count aux =
     (case pack_uint 1 version of Inl e \<Rightarrow> Inl e | Inr f1 \<Rightarrow>
     (case pack_uint 1 a of Inl e \<Rightarrow> Inl e | Inr f2 \<Rightarrow>
     (case pack_uint 1 b of Inl e \<Rightarrow> Inl e | Inr f3 \<Rightarrow>
     (case pack_uint 1 flags of Inl e \<Rightarrow> Inl e | Inr f4 \<Rightarrow>
     (case pack_uint 4 count of Inl e \<Rightarrow> Inl e | Inr f5 \<Rightarrow>
     (case pack_uint 4 aux of Inl e \<Rightarrow> Inl e | Inr f6 \<Rightarrow>
        Inr (FONT_MAGIC @ f1 @ f2 @ f3 @ f4 @ f5 @ f6)))))))"

text \<open>\<^verbatim>\<open>struct.pack('<HI', codepoint, offset)\<close>, one entry of the fixed-format index.\<close>

definition pack_entry_fixed :: "int \<Rightarrow> int \<Rightarrow> error + bytes" where
  "pack_entry_fixed codepoint offset =
     (case pack_uint 2 codepoint of Inl e \<Rightarrow> Inl e | Inr f1 \<Rightarrow>
     (case pack_uint 4 offset of Inl e \<Rightarrow> Inl e | Inr f2 \<Rightarrow> Inr (f1 @ f2)))"

text \<open>Lines 248 to 251, with the two buffers the loop appends to.\<close>

fun fixed_index ::
  "int \<Rightarrow> int \<Rightarrow> nat \<Rightarrow> (int \<times> bytes) list \<Rightarrow> bytes \<Rightarrow> bytes \<Rightarrow> error + (bytes \<times> bytes)" where
  "fixed_index bitmap_start bytes_per_glyph i [] index_data bitmap_data =
     Inr (index_data, bitmap_data)"
| "fixed_index bitmap_start bytes_per_glyph i ((codepoint, bm) # rendered) index_data bitmap_data =
     (let offset = bitmap_start + int i * bytes_per_glyph in
      case pack_entry_fixed codepoint offset of
        Inl e \<Rightarrow> Inl e
      | Inr entry \<Rightarrow>
          fixed_index bitmap_start bytes_per_glyph (Suc i) rendered
            (index_data @ entry) (bitmap_data @ bm))"

text \<open>The glyphs that reach the index, in index order (lines 203 to 224).\<close>

definition rendered_glyphs ::
  "properties \<Rightarrow> glyph list \<Rightarrow> int option \<Rightarrow> int option \<Rightarrow> error + (int \<times> bytes) list" where
  "rendered_glyphs props glyphs target_width target_height =
     render_all (valid_glyphs glyphs)
       (target_width_of props target_width) (target_height_of props target_height)
       (font_ascent_of props) (font_descent_of props)"

text \<open>
  Lines 226 to 257. Header and index are packed before the output file is opened, so an
  exception leaves the output path untouched; nothing tests whether \<^verbatim>\<open>rendered\<close> is empty.
\<close>

definition write_fnt ::
  "int \<Rightarrow> int \<Rightarrow> (int \<times> bytes) list \<Rightarrow> outcome" where
  "write_fnt target_width target_height rendered =
     (let bytes_per_glyph = (target_width * target_height + 7) div 8;
          glyph_count = int (length rendered)
      in case pack_header 1 target_width target_height 0 glyph_count 16 of
           Inl e \<Rightarrow> (Raised e, None)
         | Inr header \<Rightarrow>
             (let index_size = glyph_count * 6;
                  bitmap_start = 16 + index_size
              in case fixed_index bitmap_start bytes_per_glyph 0 rendered [] [] of
                   Inl e \<Rightarrow> (Raised e, None)
                 | Inr (index_data, bitmap_data) \<Rightarrow>
                     (Returned_None, Some (header @ index_data @ bitmap_data))))"

text \<open>\<^verbatim>\<open>create_fnt_file\<close>, on the lines of the source file and the two optional sizes.\<close>

definition create_fnt_file :: "string list \<Rightarrow> int option \<Rightarrow> int option \<Rightarrow> outcome" where
  "create_fnt_file lines target_width target_height =
     (case parse_bdf lines of
        Inl e \<Rightarrow> (Raised e, None)
      | Inr (props, glyphs) \<Rightarrow>
          (case rendered_glyphs props glyphs target_width target_height of
             Inl e \<Rightarrow> (Raised e, None)
           | Inr rendered \<Rightarrow>
               write_fnt (target_width_of props target_width)
                 (target_height_of props target_height) rendered))"

section \<open>The outline source adapter (\<^verbatim>\<open>ttf2fnt.get_font_codepoints\<close>, \<^verbatim>\<open>ttf2fnt.render_glyph\<close>)\<close>

text \<open>
  The outline rasterizer is outside the repository. A loaded font is what the code asks of
  it: \<open>getbbox\<close>, the ink bounding box of a character at the requested size (which may be
  absent, or raise), and \<open>ink\<close>, the grey level that drawing the character at the origin
  puts on the pixel at a given column and row.
\<close>

datatype bbox_result = Bbox_raises | Bbox_none | Bbox int int int int

record font =
  getbbox :: "nat \<Rightarrow> bbox_result"
  ink :: "nat \<Rightarrow> int \<Rightarrow> int \<Rightarrow> nat"

text \<open>
  Lines 53 to 64, on the character maps of the font, each with its \<^verbatim>\<open>isUnicode()\<close> flag and
  its keys. The keys are collected in a set: the order in which a set is listed is not
  defined, and \<^verbatim>\<open>sorted\<close> makes the result independent of it.
\<close>

definition get_font_codepoints :: "(bool \<times> nat list) list \<Rightarrow> nat list" where
  "get_font_codepoints tables =
     (let codepoints = remdups (concat (map snd (filter fst tables)));
          codepoints = filter (\<lambda>cp. cp \<ge> 0x20) codepoints
      in sort codepoints)"

text \<open>
  \<^verbatim>\<open>Image.new('L', (canvas_w, canvas_h), 0)\<close> followed by \<^verbatim>\<open>draw.text((ox, oy), char, fill=255)\<close>:
  the rows of the image, top to bottom.
\<close>

definition draw_text :: "font \<Rightarrow> nat \<Rightarrow> int \<Rightarrow> int \<Rightarrow> nat \<Rightarrow> nat \<Rightarrow> nat list list" where
  "draw_text f codepoint ox oy canvas_w canvas_h =
     map (\<lambda>y. map (\<lambda>x. min 255 (ink f codepoint (int x - ox) (int y - oy))) [0..<canvas_w])
       [0..<canvas_h]"

text \<open>\<^verbatim>\<open>img.getbbox()\<close>: the bounds (left, upper, right, lower) of the pixels that are not zero.\<close>

definition image_getbbox :: "nat list list \<Rightarrow> (nat \<times> nat \<times> nat \<times> nat) option" where
  "image_getbbox img =
     (let ys = filter (\<lambda>y. \<exists>v\<in>set (img ! y). v \<noteq> 0) [0..<length img];
          xs = concat (map (\<lambda>row. filter (\<lambda>x. row ! x \<noteq> 0) [0..<length row]) img)
      in if ys = [] \<or> xs = [] then None
         else Some (Min (set xs), Min (set ys), Suc (Max (set xs)), Suc (Max (set ys))))"

text \<open>\<^verbatim>\<open>img.crop((left, upper, right, lower))\<close>\<close>

definition crop :: "nat list list \<Rightarrow> nat \<times> nat \<times> nat \<times> nat \<Rightarrow> nat list list" where
  "crop img box =
     (case box of (left, upper, right, lower) \<Rightarrow>
        map (\<lambda>row. take (right - left) (drop left row)) (take (lower - upper) (drop upper img)))"

text \<open>
  \<^verbatim>\<open>render_glyph\<close>. \<^verbatim>\<open>chr\<close> raises outside the range of Unicode, before the \<^verbatim>\<open>try\<close>; the
  \<^verbatim>\<open>except\<close> clause turns an exception of \<^verbatim>\<open>getbbox\<close> into "not available".
\<close>

definition render_glyph :: "font \<Rightarrow> nat \<Rightarrow> int \<Rightarrow> error + (bytes option \<times> int \<times> int)" where
  "render_glyph f codepoint size_px =
     (if codepoint \<ge> 0x110000 then Inl ValueError
      else
        (case getbbox f codepoint of
           Bbox_raises \<Rightarrow> Inr (None, 0, 0)
         | Bbox_none \<Rightarrow> Inr (None, 0, 0)
         | Bbox b0 b1 b2 b3 \<Rightarrow>
             if b2 \<le> b0 \<or> b3 \<le> b1 then
               (if codepoint = 0x20 then Inr (Some (replicate 1 0), size_px div 3, size_px)
                else Inr (None, 0, 0))
             else
               (let glyph_width = b2 - b0;
                    glyph_height = b3 - b1;
                    canvas_w = glyph_width + 2;
                    canvas_h = glyph_height + 2;
                    img = draw_text f codepoint (1 - b0) (1 - b1) (nat canvas_w) (nat canvas_h)
                in case image_getbbox img of
                     None \<Rightarrow> Inr (None, 0, 0)
                   | Some content_bbox \<Rightarrow>
                       (case content_bbox of (left, upper, right, lower) \<Rightarrow>
                          (let glyph_img = crop img content_bbox;
                               final_width = int right - int left;
                               final_height = int lower - int upper;
                               glyph_binary =
                                 map (map (\<lambda>x. if x > 30 then 1 else (0::nat))) glyph_img;
                               pixels = concat glyph_binary
                           in Inr (Some (pack_bits pixels), final_width, final_height))))))"

section \<open>The variable-format encoder (\<^verbatim>\<open>ttf2fnt.create_font_file\<close>)\<close>

type_synonym rendered_glyph = "nat \<times> bytes \<times> int \<times> int"

text \<open>
  Lines 175 to 180. \<^verbatim>\<open>if bitmap and width > 0 and height > 0\<close>: a bitmap that is \<^verbatim>\<open>None\<close> or
  empty is false.
\<close>

fun render_loop ::
  "font \<Rightarrow> int \<Rightarrow> nat list \<Rightarrow> rendered_glyph list \<Rightarrow> int \<Rightarrow> int \<Rightarrow>
   error + (rendered_glyph list \<times> int \<times> int)" where
  "render_loop f size_px [] glyphs max_width max_height = Inr (glyphs, max_width, max_height)"
| "render_loop f size_px (cp # codepoints) glyphs max_width max_height =
     (case render_glyph f cp size_px of
        Inl e \<Rightarrow> Inl e
      | Inr (bm, width, height) \<Rightarrow>
          (case bm of
             Some bits \<Rightarrow>
               if bits \<noteq> [] \<and> width > 0 \<and> height > 0 then
                 render_loop f size_px codepoints (glyphs @ [(cp, bits, width, height)])
                   (max max_width width) (max max_height height)
               else render_loop f size_px codepoints glyphs max_width max_height
           | None \<Rightarrow> render_loop f size_px codepoints glyphs max_width max_height))"

text \<open>\<^verbatim>\<open>struct.pack('<IIBB', cp, bitmap_offset, width, height)\<close>\<close>

definition pack_entry_variable :: "int \<Rightarrow> int \<Rightarrow> int \<Rightarrow> int \<Rightarrow> error + bytes" where
  "pack_entry_variable cp bitmap_offset width height =
     (case pack_uint 4 cp of Inl e \<Rightarrow> Inl e | Inr f1 \<Rightarrow>
     (case pack_uint 4 bitmap_offset of Inl e \<Rightarrow> Inl e | Inr f2 \<Rightarrow>
     (case pack_uint 1 width of Inl e \<Rightarrow> Inl e | Inr f3 \<Rightarrow>
     (case pack_uint 1 height of Inl e \<Rightarrow> Inl e | Inr f4 \<Rightarrow> Inr (f1 @ f2 @ f3 @ f4)))))"

text \<open>
  Lines 217 to 222, writing into the open file: the result is the file after the index, or
  the exception together with what had been written when it was raised.
\<close>

fun variable_index :: "int \<Rightarrow> rendered_glyph list \<Rightarrow> bytes \<Rightarrow> (error \<times> bytes) + bytes" where
  "variable_index bitmap_offset [] file = Inr file"
| "variable_index bitmap_offset ((cp, bm, width, height) # glyphs) file =
     (case pack_entry_variable (int cp) bitmap_offset width height of
        Inl e \<Rightarrow> Inl (e, file)
      | Inr entry \<Rightarrow> variable_index (bitmap_offset + int (length bm)) glyphs (file @ entry))"

text \<open>
  Lines 189 to 235, from the rendered glyphs on. The file is opened (and so created or
  emptied) before the header is packed.
\<close>

definition write_font :: "rendered_glyph list \<Rightarrow> int \<Rightarrow> int \<Rightarrow> outcome" where
  "write_font glyphs max_width max_height =
     (if glyphs = [] then (Returned_False, None)
      else
        (let header_size = 16;
             index_entry_size = 10;
             index_size = int (length glyphs) * index_entry_size
         in case pack_header FONT_VERSION max_width max_height 1 (int (length glyphs)) 0 of
              Inl e \<Rightarrow> (Raised e, Some [])
            | Inr header \<Rightarrow>
                (case variable_index (header_size + index_size) glyphs header of
                   Inl (e, file) \<Rightarrow> (Raised e, Some file)
                 | Inr file \<Rightarrow>
                     (Returned_True, Some (file @ concat (map (\<lambda>(cp, bm, width, height). bm) glyphs))))))"

text \<open>
  \<^verbatim>\<open>create_font_file\<close> (\<open>size_px\<close> is its \<^verbatim>\<open>size\<close>), on the character maps of the font file
  and on the font that \<^verbatim>\<open>ImageFont.truetype\<close> loaded, \<open>None\<close> when loading raised.
\<close>

definition create_font_file :: "(bool \<times> nat list) list \<Rightarrow> font option \<Rightarrow> int \<Rightarrow> outcome" where
  "create_font_file tables loaded size_px =
     (let codepoints = get_font_codepoints tables in
      case loaded of
        None \<Rightarrow> (Returned_False, None)
      | Some f \<Rightarrow>
          (case render_loop f size_px codepoints [] 0 0 of
             Inl e \<Rightarrow> (Raised e, None)
           | Inr (glyphs, max_width, max_height) \<Rightarrow> write_font glyphs max_width max_height))"

section \<open>Verification: the bit packer\<close>

lemma list_get_nat: "i < length xs \<Longrightarrow> list_get xs (int i) = Inr (xs ! i)"
  by (simp add: list_get_def py_index_def)

lemma list_set_nat: "i < length xs \<Longrightarrow> list_set xs (int i) v = Inr (xs[i := v])"
  by (simp add: list_set_def py_index_def)

lemma pos_split: 
  fixes i j k :: nat
  assumes k: "k < 8"
  shows "(8 * j + 7 - k = i) \<longleftrightarrow> (j = i div 8 \<and> i mod 8 + k = 7)"
proof -
  define d where "d = 7 - k"
  have d: "d < 8" "8 * j + 7 - k = 8 * j + d" "i mod 8 + k = 7 \<longleftrightarrow> i mod 8 = d"
    using k by (auto simp: d_def)
  have "(8 * j + d = i) \<longleftrightarrow> (j = i div 8 \<and> i mod 8 = d)"
    using d(1) by auto
  then show ?thesis using d by simp
qed
lemma bit_msb_mask: "bit (drop_bit m (0x80::nat)) k \<longleftrightarrow> m + k = 7"
proof -
  have e: "(0x80::nat) = 2 ^ 7" by simp
  have "bit ((2::nat) ^ 7) n \<longleftrightarrow> n = 7" for n
    by (simp only: bit_exp_iff) simp
  then show ?thesis unfolding e by (simp only: bit_drop_bit_eq comp_def)
qed

lemma pack_loop_spec:
  "(i + length bits + 7) div 8 \<le> length result \<Longrightarrow>
   \<exists>r. pack_loop i bits result = Inr r \<and> length r = length result \<and>
     (\<forall>j<length r. \<forall>k. bit (r ! j) k \<longleftrightarrow>
        bit (result ! j) k \<or>
        (k < 8 \<and> i \<le> 8 * j + 7 - k \<and> 8 * j + 7 - k < i + length bits \<and>
         bits ! (8 * j + 7 - k - i) \<noteq> 0))"
proof (induction bits arbitrary: i result)
  case Nil
  then show ?case by auto
next
  case (Cons b bs)
  have len: "(Suc i + length bs + 7) div 8 \<le> length result" using Cons.prems by simp
  have idx: "i div 8 < length result" using Cons.prems by simp
  show ?case
  proof (cases "b = 0")
    case True
    from Cons.IH[OF len] obtain r where r: "pack_loop (Suc i) bs result = Inr r"
      "length r = length result"
      "\<forall>j<length r. \<forall>k. bit (r ! j) k \<longleftrightarrow>
        bit (result ! j) k \<or>
        (k < 8 \<and> Suc i \<le> 8 * j + 7 - k \<and> 8 * j + 7 - k < Suc i + length bs \<and>
         bs ! (8 * j + 7 - k - Suc i) \<noteq> 0)" by blast
    have "\<forall>j<length r. \<forall>k. bit (r ! j) k \<longleftrightarrow>
        bit (result ! j) k \<or>
        (k < 8 \<and> i \<le> 8 * j + 7 - k \<and> 8 * j + 7 - k < i + length (b # bs) \<and>
         (b # bs) ! (8 * j + 7 - k - i) \<noteq> 0)"
    proof (intro allI impI)
      fix j k assume "j < length r"
      then have "bit (r ! j) k \<longleftrightarrow>
        bit (result ! j) k \<or>
        (k < 8 \<and> Suc i \<le> 8 * j + 7 - k \<and> 8 * j + 7 - k < Suc i + length bs \<and>
         bs ! (8 * j + 7 - k - Suc i) \<noteq> 0)" using r(3) by blast
      also have "\<dots> \<longleftrightarrow> bit (result ! j) k \<or>
        (k < 8 \<and> i \<le> 8 * j + 7 - k \<and> 8 * j + 7 - k < i + length (b # bs) \<and>
         (b # bs) ! (8 * j + 7 - k - i) \<noteq> 0)"
        using True by (cases "8 * j + 7 - k = i") (auto simp: nth_Cons')
      finally show "bit (r ! j) k \<longleftrightarrow> bit (result ! j) k \<or>
        (k < 8 \<and> i \<le> 8 * j + 7 - k \<and> 8 * j + 7 - k < i + length (b # bs) \<and>
         (b # bs) ! (8 * j + 7 - k - i) \<noteq> 0)" .
    qed
    with r True show ?thesis by simp
  next
    case False
    define result' where "result' = result[i div 8 := result ! (i div 8) OR drop_bit (i mod 8) 0x80]"
    have len': "(Suc i + length bs + 7) div 8 \<le> length result'" using len by (simp add: result'_def)
    from Cons.IH[OF len'] obtain r where r: "pack_loop (Suc i) bs result' = Inr r"
      "length r = length result'"
      "\<forall>j<length r. \<forall>k. bit (r ! j) k \<longleftrightarrow>
        bit (result' ! j) k \<or>
        (k < 8 \<and> Suc i \<le> 8 * j + 7 - k \<and> 8 * j + 7 - k < Suc i + length bs \<and>
         bs ! (8 * j + 7 - k - Suc i) \<noteq> 0)" by blast
    have step: "pack_loop i (b # bs) result = Inr r"
      using False idx r(1) by (simp add: list_get_nat list_set_nat result'_def)
    have lr: "length r = length result" using r(2) by (simp add: result'_def)
    have "\<forall>j<length r. \<forall>k. bit (r ! j) k \<longleftrightarrow>
        bit (result ! j) k \<or>
        (k < 8 \<and> i \<le> 8 * j + 7 - k \<and> 8 * j + 7 - k < i + length (b # bs) \<and>
         (b # bs) ! (8 * j + 7 - k - i) \<noteq> 0)"
    proof (intro allI impI)
      fix j k assume j: "j < length r"
      have old: "bit (result' ! j) k \<longleftrightarrow> bit (result ! j) k \<or> (j = i div 8 \<and> i mod 8 + k = 7)"
        using j lr idx by (auto simp: result'_def nth_list_update bit_or_iff bit_msb_mask)
      have "bit (r ! j) k \<longleftrightarrow>
        bit (result' ! j) k \<or>
        (k < 8 \<and> Suc i \<le> 8 * j + 7 - k \<and> 8 * j + 7 - k < Suc i + length bs \<and>
         bs ! (8 * j + 7 - k - Suc i) \<noteq> 0)" using r(3) j by blast
      also have "\<dots> \<longleftrightarrow> bit (result ! j) k \<or>
        (k < 8 \<and> i \<le> 8 * j + 7 - k \<and> 8 * j + 7 - k < i + length (b # bs) \<and>
         (b # bs) ! (8 * j + 7 - k - i) \<noteq> 0)"
      proof (cases "k < 8")
        case k: True
        show ?thesis
        proof (cases "8 * j + 7 - k = i")
          case True
          then have "j = i div 8 \<and> i mod 8 + k = 7" using pos_split[OF k] by blast
          with True False old k show ?thesis by simp
        next
          case ne: False
          then have "\<not> (j = i div 8 \<and> i mod 8 + k = 7)" using pos_split[OF k] by blast
          with ne old k show ?thesis by (auto simp: nth_Cons')
        qed
      next
        case False
        then have "\<not> (i mod 8 + k = 7)" by simp
        with False old show ?thesis by simp
      qed
      finally show "bit (r ! j) k \<longleftrightarrow> bit (result ! j) k \<or>
        (k < 8 \<and> i \<le> 8 * j + 7 - k \<and> 8 * j + 7 - k < i + length (b # bs) \<and>
         (b # bs) ! (8 * j + 7 - k - i) \<noteq> 0)" .
    qed
    with step lr show ?thesis by blast
  qed
qed

lemma bit_one_shl: "bit (push_bit n (1::nat)) k \<longleftrightarrow> k = n"
  by (auto simp: bit_exp_iff)

lemma pack_pixels_spec:
  "bit_pos < 8 \<Longrightarrow> pack_pixels pixels packed byte bit_pos = (p', b', bp') \<Longrightarrow>
     bp' = (bit_pos + length pixels) mod 8 \<and>
     length p' = length packed + (bit_pos + length pixels) div 8 \<and>
     take (length packed) p' = packed \<and>
     (\<forall>j k. j \<le> (bit_pos + length pixels) div 8 \<longrightarrow>
        (bit ((p' @ [b']) ! (length packed + j)) k \<longleftrightarrow>
          (j = 0 \<and> bit byte k) \<or>
          (k < 8 \<and> bit_pos \<le> 8 * j + 7 - k \<and> 8 * j + 7 - k < bit_pos + length pixels \<and>
           pixels ! (8 * j + 7 - k - bit_pos) \<noteq> 0)))"
proof (induction pixels arbitrary: packed byte bit_pos)
  case Nil
  then show ?case by (auto simp: nth_append)
next
  case (Cons px ps)
  define byte' where "byte' = (if px \<noteq> 0 then byte OR push_bit (7 - bit_pos) 1 else byte)"
  have byte'_bit: "bit byte' k \<longleftrightarrow> bit byte k \<or> (px \<noteq> 0 \<and> k = 7 - bit_pos)" for k
    unfolding byte'_def by (simp only: bit_or_iff bit_one_shl split: if_split) auto
  show ?case
  proof (cases "bit_pos = 7")
    case True
    have rec: "pack_pixels ps (packed @ [byte']) 0 0 = (p', b', bp')"
      using Cons.prems(2) True by (cases "px = 0") (simp_all add: byte'_def Let_def)
    have z: "(0::nat) < 8" by simp
    note IH = Cons.IH[OF z rec]
    have bp: "bp' = (bit_pos + length (px # ps)) mod 8" using IH True by simp
    have lp: "length p' = length packed + (bit_pos + length (px # ps)) div 8"
      using IH True by simp
    have tk: "take (Suc (length packed)) p' = packed @ [byte']" using IH by simp
    have "take (length packed) (take (Suc (length packed)) p') = take (length packed) p'"
      by (simp add: min_def)
    then have tk': "take (length packed) p' = packed"
      by (simp add: tk)
    have "(take (Suc (length packed)) p') ! length packed = p' ! length packed"
      by simp
    then have at: "p' ! length packed = byte'"
      by (simp add: tk)
    have bits: "bit ((p' @ [b']) ! (length packed + j)) k \<longleftrightarrow>
          (j = 0 \<and> bit byte k) \<or>
          (k < 8 \<and> bit_pos \<le> 8 * j + 7 - k \<and> 8 * j + 7 - k < bit_pos + length (px # ps) \<and>
           (px # ps) ! (8 * j + 7 - k - bit_pos) \<noteq> 0)"
      if j: "j \<le> (bit_pos + length (px # ps)) div 8" for j k
    proof (cases j)
      case 0
      have "length packed < length p'" using lp True by simp
      then have "(p' @ [b']) ! (length packed + j) = byte'"
        using 0 at by (simp add: nth_append)
      moreover have "(k < 8 \<and> bit_pos \<le> 8 * j + 7 - k \<and> 8 * j + 7 - k < bit_pos + length (px # ps) \<and>
           (px # ps) ! (8 * j + 7 - k - bit_pos) \<noteq> 0) \<longleftrightarrow> (px \<noteq> 0 \<and> k = 7 - bit_pos)"
        using 0 True by auto
      ultimately show ?thesis using byte'_bit 0 by simp
    next
      case (Suc j')
      have j': "j' \<le> (0 + length ps) div 8" using j Suc True by simp
      have "bit ((p' @ [b']) ! (length (packed @ [byte']) + j')) k \<longleftrightarrow>
          (j' = 0 \<and> bit (0::nat) k) \<or>
          (k < 8 \<and> 0 \<le> 8 * j' + 7 - k \<and> 8 * j' + 7 - k < 0 + length ps \<and>
           ps ! (8 * j' + 7 - k - 0) \<noteq> 0)"
        using IH j' by blast
      moreover have "k < 8 \<Longrightarrow> 8 * j + 7 - k - bit_pos = Suc (8 * j' + 7 - k)"
        using Suc True by simp
      ultimately show ?thesis using Suc True by auto
    qed
    show ?thesis using bp lp tk' bits by blast
  next
    case False
    with Cons.prems(1) have lt: "bit_pos + 1 < 8" by simp
    have rec: "pack_pixels ps packed byte' (bit_pos + 1) = (p', b', bp')"
      using Cons.prems(2) False by (cases "px = 0") (simp_all add: byte'_def Let_def)
    note IH = Cons.IH[OF lt rec]
    have bp: "bp' = (bit_pos + length (px # ps)) mod 8" using IH by simp
    have lp: "length p' = length packed + (bit_pos + length (px # ps)) div 8"
      using IH by simp
    have tk': "take (length packed) p' = packed" using IH by simp
    have bits: "bit ((p' @ [b']) ! (length packed + j)) k \<longleftrightarrow>
          (j = 0 \<and> bit byte k) \<or>
          (k < 8 \<and> bit_pos \<le> 8 * j + 7 - k \<and> 8 * j + 7 - k < bit_pos + length (px # ps) \<and>
           (px # ps) ! (8 * j + 7 - k - bit_pos) \<noteq> 0)"
      if j: "j \<le> (bit_pos + length (px # ps)) div 8" for j k
    proof -
      have j': "j \<le> (bit_pos + 1 + length ps) div 8" using j by simp
      have ih: "bit ((p' @ [b']) ! (length packed + j)) k \<longleftrightarrow>
          (j = 0 \<and> bit byte' k) \<or>
          (k < 8 \<and> bit_pos + 1 \<le> 8 * j + 7 - k \<and> 8 * j + 7 - k < bit_pos + 1 + length ps \<and>
           ps ! (8 * j + 7 - k - (bit_pos + 1)) \<noteq> 0)"
        using IH j' by blast
      show ?thesis
      proof (cases "k < 8")
        case k: True
        have ps: "(8 * j + 7 - k = bit_pos) \<longleftrightarrow> (j = 0 \<and> bit_pos + k = 7)"
          using pos_split[OF k, of j bit_pos] Cons.prems(1) by simp
        show ?thesis
        proof (cases "8 * j + 7 - k = bit_pos")
          case True
          then have "j = 0" "k = 7 - bit_pos" using ps by auto
          with True ih byte'_bit[of k] k show ?thesis by simp
        next
          case ne: False
          then have "\<not> (j = 0 \<and> k = 7 - bit_pos)" using ps k Cons.prems(1) by auto
          moreover have "bit_pos \<le> 8 * j + 7 - k \<longleftrightarrow> bit_pos + 1 \<le> 8 * j + 7 - k"
            using ne by auto
          moreover have "bit_pos + 1 \<le> 8 * j + 7 - k \<Longrightarrow>
              (px # ps) ! (8 * j + 7 - k - bit_pos) = ps ! (8 * j + 7 - k - (bit_pos + 1))"
          proof -
            assume "bit_pos + 1 \<le> 8 * j + 7 - k"
            then have "8 * j + 7 - k - bit_pos = Suc (8 * j + 7 - k - (bit_pos + 1))" by arith
            then show ?thesis by simp
          qed
          ultimately show ?thesis using ih byte'_bit[of k] k by auto
        qed
      next
        case False
        then have "k \<noteq> 7 - bit_pos" by simp
        with False ih byte'_bit[of k] show ?thesis by auto
      qed
    qed
    show ?thesis using bp lp tk' bits by blast
  qed
qed

lemma pack_canvas_spec:
  "\<exists>r. pack_canvas canvas = Inr r \<and> length r = (length (concat canvas) + 7) div 8 \<and>
     (\<forall>j<length r. \<forall>k. bit (r ! j) k \<longleftrightarrow>
        k < 8 \<and> 8 * j + 7 - k < length (concat canvas) \<and> concat canvas ! (8 * j + 7 - k) \<noteq> 0)"
proof -
  define bits where "bits = concat canvas"
  define z where "z = replicate ((length bits + 7) div 8) (0::nat)"
  have "(0 + length bits + 7) div 8 \<le> length z" by (simp add: z_def)
  from pack_loop_spec[OF this] obtain r where r: "pack_loop 0 bits z = Inr r"
    "length r = length z"
    "\<forall>j<length r. \<forall>k. bit (r ! j) k \<longleftrightarrow>
        bit (z ! j) k \<or>
        (k < 8 \<and> 0 \<le> 8 * j + 7 - k \<and> 8 * j + 7 - k < 0 + length bits \<and>
         bits ! (8 * j + 7 - k - 0) \<noteq> 0)" by blast
  have "pack_canvas canvas = Inr r"
    using r(1) by (simp add: pack_canvas_def Let_def bits_def z_def)
  moreover have "length r = (length bits + 7) div 8" using r(2) by (simp add: z_def)
  moreover have "bit (r ! j) k \<longleftrightarrow>
        k < 8 \<and> 8 * j + 7 - k < length bits \<and> bits ! (8 * j + 7 - k) \<noteq> 0"
    if "j < length r" for j k
  proof -
    have "z ! j = 0" using that r(2) by (simp add: z_def)
    then show ?thesis using r(3) that by simp
  qed
  ultimately show ?thesis unfolding bits_def by blast
qed

lemma pack_bits_spec:
  "length (pack_bits pixels) = (length pixels + 7) div 8 \<and>
     (\<forall>j<length (pack_bits pixels). \<forall>k. bit (pack_bits pixels ! j) k \<longleftrightarrow>
        k < 8 \<and> 8 * j + 7 - k < length pixels \<and> pixels ! (8 * j + 7 - k) \<noteq> 0)"
proof -
  obtain p' b' bp' where run: "pack_pixels pixels [] 0 0 = (p', b', bp')"
    by (cases "pack_pixels pixels [] 0 0") auto
  have z: "(0::nat) < 8" by simp
  note sp = pack_pixels_spec[OF z run]
  have bp: "bp' = length pixels mod 8" using sp by simp
  have lp: "length p' = length pixels div 8" using sp by simp
  have bits: "bit ((p' @ [b']) ! j) k \<longleftrightarrow>
        k < 8 \<and> 8 * j + 7 - k < length pixels \<and> pixels ! (8 * j + 7 - k) \<noteq> 0"
    if "j \<le> length pixels div 8" for j k
  proof -
    have "bit ((p' @ [b']) ! (length ([]::nat list) + j)) k \<longleftrightarrow>
          (j = 0 \<and> bit (0::nat) k) \<or>
          (k < 8 \<and> 0 \<le> 8 * j + 7 - k \<and> 8 * j + 7 - k < 0 + length pixels \<and>
           pixels ! (8 * j + 7 - k - 0) \<noteq> 0)"
      using sp that by simp
    then show ?thesis by simp
  qed
  show ?thesis
  proof (cases "bp' > 0")
    case True
    have pb: "pack_bits pixels = p' @ [b']" using run True by (simp add: pack_bits_def)
    have "length (p' @ [b']) = (length pixels + 7) div 8"
      using lp bp True by simp presburger
    moreover have "j \<le> length pixels div 8" if "j < length (p' @ [b'])" for j
      using that lp by simp
    ultimately show ?thesis unfolding pb using bits by blast
  next
    case False
    have pb: "pack_bits pixels = p'" using run False by (simp add: pack_bits_def)
    have "length p' = (length pixels + 7) div 8"
      using lp bp False by simp presburger
    moreover have "bit (p' ! j) k \<longleftrightarrow>
        k < 8 \<and> 8 * j + 7 - k < length pixels \<and> pixels ! (8 * j + 7 - k) \<noteq> 0"
      if "j < length p'" for j k
    proof -
      have "(p' @ [b']) ! j = p' ! j" using that by (simp add: nth_append)
      moreover have "j \<le> length pixels div 8" using that lp by simp
      ultimately show ?thesis using bits[of j k] by simp
    qed
    ultimately show ?thesis unfolding pb by blast
  qed
qed

lemma byte_of_low_bits:
  fixes b :: nat
  assumes "\<And>k. bit b k \<Longrightarrow> k < 8"
  shows "b < 256"
proof -
  have "take_bit 8 b = b"
    by (rule bit_eqI) (auto simp: bit_take_bit_iff dest: assms)
  moreover have "take_bit 8 b < 2 ^ 8" by (rule take_bit_nat_less_exp)
  ultimately show ?thesis by simp
qed

lemma packers_agree: "pack_canvas canvas = Inr (pack_bits (concat canvas))"
proof -
  from pack_canvas_spec[of canvas] obtain r where r: "pack_canvas canvas = Inr r"
    "length r = (length (concat canvas) + 7) div 8"
    "\<forall>j<length r. \<forall>k. bit (r ! j) k \<longleftrightarrow>
        k < 8 \<and> 8 * j + 7 - k < length (concat canvas) \<and> concat canvas ! (8 * j + 7 - k) \<noteq> 0"
    by blast
  note q = pack_bits_spec[of "concat canvas"]
  have "r = pack_bits (concat canvas)"
  proof (rule nth_equalityI)
    show "length r = length (pack_bits (concat canvas))" using r(2) q by simp
  next
    fix j assume j: "j < length r"
    then have j': "j < length (pack_bits (concat canvas))" using r(2) q by simp
    show "r ! j = pack_bits (concat canvas) ! j"
    proof (rule bit_eqI)
      fix k
      show "bit (r ! j) k \<longleftrightarrow> bit (pack_bits (concat canvas) ! j) k"
        using r(3) j q j' by simp
    qed
  qed
  then show ?thesis using r(1) by simp
qed

lemma concat_uniform_length:
  "\<forall>row\<in>set raster. length row = W \<Longrightarrow> length (concat raster) = W * length raster"
  by (induction raster) auto

lemma msb_position:
  fixes i :: nat
  shows "8 * (i div 8) + 7 - (7 - i mod 8) = i"
proof -
  have "i mod 8 < 8" by simp
  then have "8 * (i div 8) + 7 - (7 - i mod 8) = 8 * (i div 8) + i mod 8" by arith
  then show ?thesis by simp
qed

text \<open>
  Claim C5. A raster of \<open>H\<close> rows of \<open>W\<close> pixels is packed to the same bytes by the loop of
  the fixed-format converter (which cannot raise) and by the loop of the variable-format
  converter; there are exactly \<open>ceil(W*H/8)\<close> of them, each below 256, and pixel \<open>i\<close> in
  row-major order is bit \<open>7 - i mod 8\<close> of byte \<open>i div 8\<close>, with no padding between rows.
\<close>

theorem packers_msb_first:
  assumes "length raster = H" and "\<forall>row\<in>set raster. length row = W"
  shows "pack_canvas raster = Inr (pack_bits (concat raster)) \<and>
         length (pack_bits (concat raster)) = (W * H + 7) div 8 \<and>
         (\<forall>b\<in>set (pack_bits (concat raster)). b < 256) \<and>
         (\<forall>i<W * H. bit (pack_bits (concat raster) ! (i div 8)) (7 - i mod 8)
                      \<longleftrightarrow> concat raster ! i \<noteq> 0)"
proof -
  define pixels where "pixels = concat raster"
  have n: "length pixels = W * H"
    using assms concat_uniform_length[of raster W] by (simp add: pixels_def)
  note q = pack_bits_spec[of pixels]
  have len: "length (pack_bits pixels) = (W * H + 7) div 8" using q n by simp
  have bytes: "\<forall>b\<in>set (pack_bits pixels). b < 256"
  proof
    fix b assume "b \<in> set (pack_bits pixels)"
    then obtain j where j: "j < length (pack_bits pixels)" "b = pack_bits pixels ! j"
      by (auto simp: in_set_conv_nth)
    show "b < 256"
    proof (rule byte_of_low_bits)
      fix k assume "bit b k"
      then show "k < 8" using q j by simp
    qed
  qed
  have bits: "bit (pack_bits pixels ! (i div 8)) (7 - i mod 8) \<longleftrightarrow> pixels ! i \<noteq> 0"
    if i: "i < W * H" for i
  proof -
    have j: "i div 8 < length (pack_bits pixels)" using i len by simp
    have k: "7 - i mod 8 < 8" by simp
    show ?thesis using q j k i n by (simp add: msb_position)
  qed
  show ?thesis using packers_agree[of raster] len bytes bits unfolding pixels_def by blast
qed

theorem packers_msb_first_witness:
  "map length [[1, 0, 1], [0, 1, 1], [1, 1, 1::nat]] = [3, 3, 3] \<and>
   pack_canvas [[1, 0, 1], [0, 1, 1], [1, 1, 1]] = Inr [0xAF, 0x80] \<and>
   pack_bits [1, 0, 1, 0, 1, 1, 1, 1, 1] = [0xAF, 0x80]"
  using packers_msb_first[of "[[1, 0, 1], [0, 1, 1], [1, 1, 1]]" 3 3]
  by (simp add: pack_bits_def)

section \<open>Verification: font metrics, the empty container, the space\<close>

lemma read_rows_rest_subset:
  "read_rows ls rows = Inr (rows', rest) \<Longrightarrow> set rest \<subseteq> set ls"
proof (induction ls arbitrary: rows)
  case Nil
  then show ?case by simp
next
  case (Cons l ls)
  show ?case
  proof (cases "strip l = ''ENDCHAR''")
    case True
    with Cons.prems show ?thesis by auto
  next
    case False
    with Cons.prems obtain rows2 where "read_rows ls rows2 = Inr (rows', rest)"
      by (auto simp: Let_def split: if_splits sum.splits)
    from Cons.IH[OF this] show ?thesis by auto
  qed
qed

lemma scan_glyph_rest_subset:
  "scan_glyph ls blk = Inr (blk', rest) \<Longrightarrow> set rest \<subseteq> set ls"
proof (induction ls arbitrary: blk)
  case Nil
  then show ?case by simp
next
  case (Cons l ls)
  show ?case
  proof (cases "strip l = ''BITMAP''")
    case True
    then have "\<not> startswith (strip l) ''ENCODING ''" "\<not> startswith (strip l) ''DWIDTH ''"
      "\<not> startswith (strip l) ''BBX ''" by (simp_all add: startswith_def)
    with True Cons.prems obtain rows where "read_rows ls (blk_rows blk) = Inr (rows, rest)"
      by (auto simp: Let_def split: sum.splits prod.splits)
    from read_rows_rest_subset[OF this] show ?thesis by auto
  next
    case False
    with Cons.prems obtain blk2 where "scan_glyph ls blk2 = Inr (blk', rest)"
      by (auto simp: Let_def split: if_splits sum.splits)
    from Cons.IH[OF this] show ?thesis by auto
  qed
qed

lemma parse_loop_keeps_metrics:
  "parse_loop ls props glyphs = Inr (props', glyphs') \<Longrightarrow>
   (\<forall>l\<in>set ls. \<not> startswith (strip l) ''FONT_ASCENT '') \<Longrightarrow>
   ascent props' = ascent props"
proof (induction ls props glyphs rule: parse_loop.induct)
  case (1 props glyphs)
  then show ?case by simp
next
  case (2 l ls props glyphs)
  have rest: "\<forall>l\<in>set (drop 1 r). \<not> startswith (strip l) ''FONT_ASCENT ''"
    if "scan_glyph ls new_block = Inr (b, r)" for b r
    using scan_glyph_rest_subset[OF that] "2.prems"(2) set_drop_subset[of 1 r] by auto
  show ?case
    using "2.prems" "2.IH" rest
    by (auto simp: Let_def split: if_splits sum.splits prod.splits)
qed

lemma parse_loop_keeps_descent:
  "parse_loop ls props glyphs = Inr (props', glyphs') \<Longrightarrow>
   (\<forall>l\<in>set ls. \<not> startswith (strip l) ''FONT_DESCENT '') \<Longrightarrow>
   descent props' = descent props"
proof (induction ls props glyphs rule: parse_loop.induct)
  case (1 props glyphs)
  then show ?case by simp
next
  case (2 l ls props glyphs)
  have rest: "\<forall>l\<in>set (drop 1 r). \<not> startswith (strip l) ''FONT_DESCENT ''"
    if "scan_glyph ls new_block = Inr (b, r)" for b r
    using scan_glyph_rest_subset[OF that] "2.prems"(2) set_drop_subset[of 1 r] by auto
  show ?case
    using "2.prems" "2.IH" rest
    by (auto simp: Let_def split: if_splits sum.splits prod.splits)
qed

lemma parse_bdf_header_only:
  "parse_bdf [''STARTFONT 2.1'', ''FONTBOUNDINGBOX 9 9 0 -2'', ''CHARS 0'', ''ENDFONT'']
     = Inr (\<lparr>fbb_width = Some 9, fbb_height = Some 9, fbb_x = Some 0, fbb_y = Some (- 2),
              ascent = None, descent = None, char_count = Some 0\<rparr>, [])"
  by code_simp

lemma write_fnt_nothing:
  "write_fnt 9 9 [] =
     (Returned_None, Some [0x54, 0x46, 0x4E, 0x54, 1, 9, 9, 0, 0, 0, 0, 0, 16, 0, 0, 0])"
  by code_simp

text \<open>
  Claim C9, as stated, fails: a source with a bounding box 9 high and neither \<^verbatim>\<open>FONT_ASCENT\<close>
  nor \<^verbatim>\<open>FONT_DESCENT\<close> gets the descent 0, not 9, and a canvas 9 high, not 18.
\<close>

theorem descent_fallback_counterexample:
  "parse_bdf [''STARTFONT 2.1'', ''FONTBOUNDINGBOX 9 9 0 -2'', ''CHARS 0'', ''ENDFONT'']
     = Inr (\<lparr>fbb_width = Some 9, fbb_height = Some 9, fbb_x = Some 0, fbb_y = Some (- 2),
              ascent = None, descent = None, char_count = Some 0\<rparr>, [])
   \<and> font_descent_of \<lparr>fbb_width = Some 9, fbb_height = Some 9, fbb_x = Some 0,
         fbb_y = Some (- 2), ascent = None, descent = None, char_count = Some 0\<rparr> \<noteq> 9
   \<and> target_height_of \<lparr>fbb_width = Some 9, fbb_height = Some 9, fbb_x = Some 0,
         fbb_y = Some (- 2), ascent = None, descent = None, char_count = Some 0\<rparr> None \<noteq> 9 + 9"
  by (simp add: parse_bdf_header_only font_descent_of_def font_ascent_of_def target_height_of_def)

text \<open>
  Claim C9, amended. When no line of the source declares \<^verbatim>\<open>FONT_ASCENT\<close> or
  \<^verbatim>\<open>FONT_DESCENT\<close>, the ascent falls back to the height of the font bounding box (to 9
  when the source has no bounding box either) and the descent falls back to 0; the height of
  the canvas is ascent + descent unless the command line gives one.
\<close>

theorem metrics_fallback:
  assumes "parse_bdf lines = Inr (props, glyphs)"
    and "\<forall>l\<in>set lines. \<not> startswith (strip l) ''FONT_ASCENT '' \<and>
                        \<not> startswith (strip l) ''FONT_DESCENT ''"
  shows "font_ascent_of props = (case fbb_height props of Some h \<Rightarrow> h | None \<Rightarrow> 9) \<and>
         font_descent_of props = 0 \<and>
         target_height_of props None = font_ascent_of props + font_descent_of props \<and>
         target_height_of props (Some h) = h"
proof -
  have a: "ascent props = None"
    using parse_loop_keeps_metrics[of lines no_properties "[]" props glyphs] assms
    by (simp add: parse_bdf_def no_properties_def)
  have d: "descent props = None"
    using parse_loop_keeps_descent[of lines no_properties "[]" props glyphs] assms
    by (simp add: parse_bdf_def no_properties_def)
  show ?thesis
    using a d by (simp add: font_ascent_of_def font_descent_of_def target_height_of_def)
qed

text \<open>
  The header-only source above meets the hypotheses of the amended claim C9.
\<close>

theorem metrics_fallback_witness:
  "font_ascent_of \<lparr>fbb_width = Some 9, fbb_height = Some 9, fbb_x = Some 0,
         fbb_y = Some (- 2), ascent = None, descent = None, char_count = Some 0\<rparr> = 9 \<and>
   font_descent_of \<lparr>fbb_width = Some 9, fbb_height = Some 9, fbb_x = Some 0,
         fbb_y = Some (- 2), ascent = None, descent = None, char_count = Some 0\<rparr> = 0 \<and>
   target_height_of \<lparr>fbb_width = Some 9, fbb_height = Some 9, fbb_x = Some 0,
         fbb_y = Some (- 2), ascent = None, descent = None, char_count = Some 0\<rparr> None = 9 \<and>
   target_height_of \<lparr>fbb_width = Some 9, fbb_height = Some 9, fbb_x = Some 0,
         fbb_y = Some (- 2), ascent = None, descent = None, char_count = Some 0\<rparr> (Some 12) = 12"
proof -
  have h: "\<forall>l\<in>set [''STARTFONT 2.1'', ''FONTBOUNDINGBOX 9 9 0 -2'', ''CHARS 0'', ''ENDFONT''].
             \<not> startswith (strip l) ''FONT_ASCENT '' \<and> \<not> startswith (strip l) ''FONT_DESCENT ''"
    by code_simp
  show ?thesis
    using metrics_fallback[OF parse_bdf_header_only h, of 12] by simp
qed

text \<open>
  Claim C2 at a source with no glyph: the fixed-format encoder returns normally and has
  written a 16-byte file whose glyph count is 0, where the claim asks for a fatal error and
  no file. (The variable-format encoder does stop: \<open>write_font\<close> returns \<^verbatim>\<open>False\<close> on an
  empty list before the file is opened.)
\<close>

theorem empty_fnt_is_written:
  "create_fnt_file [''STARTFONT 2.1'', ''FONTBOUNDINGBOX 9 9 0 -2'', ''CHARS 0'', ''ENDFONT'']
     None None
     = (Returned_None, Some [0x54, 0x46, 0x4E, 0x54, 1, 9, 9, 0, 0, 0, 0, 0, 16, 0, 0, 0])"
  by (simp add: create_fnt_file_def parse_bdf_header_only rendered_glyphs_def valid_glyphs_def
        target_width_of_def target_height_of_def font_ascent_of_def font_descent_of_def
        write_fnt_nothing)

text \<open>
  Claim C1 at the default size 12: for the space, with an empty ink box, the outline adapter
  returns width 4, height 12 and the single byte of \<^verbatim>\<open>bytes(1)\<close>, where \<open>ceil(4*12/8)\<close> is 6.
\<close>

theorem space_bitmap_is_one_byte:
  "render_glyph \<lparr>getbbox = (\<lambda>cp. Bbox 0 0 0 0), ink = (\<lambda>cp x y. 0)\<rparr> 0x20 12
     = Inr (Some [0], 4, 12)
   \<and> length [0::nat] \<noteq> (4 * 12 + 7) div 8"
  by (simp add: render_glyph_def)

section \<open>Verification: the placement engine\<close>

text \<open>
  Bit \<open>bit_idx\<close> of a source row, counted from the left of its byte-aligned width (lines 170
  to 173), and the shape of a canvas of \<open>H\<close> rows of \<open>W\<close> pixels.
\<close>

definition source_bit :: "int \<Rightarrow> int \<Rightarrow> nat \<Rightarrow> bool" where
  "source_bit w row_val bit_idx =
     (drop_bit (nat ((w + 7) div 8 * 8 - 1 - int bit_idx)) row_val AND 1 \<noteq> 0)"

definition rect :: "canvas \<Rightarrow> nat \<Rightarrow> nat \<Rightarrow> bool" where
  "rect c H W = (length c = H \<and> (\<forall>row\<in>set c. length row = W))"

lemma rect_row: "rect c H W \<Longrightarrow> y < H \<Longrightarrow> length (c ! y) = W"
  by (simp add: rect_def)

lemma rect_update:
  "rect c H W \<Longrightarrow> y < H \<Longrightarrow> rect (c[y := (c ! y)[x := v]]) H W"
  unfolding rect_def by (auto dest!: set_update_subset_insert[THEN subsetD])

lemma canvas_put_inside:
  assumes "rect c H W" "0 \<le> y" "y < int H" "0 \<le> x" "x < int W"
  shows "canvas_put c y x = Inr (c[nat y := (c ! nat y)[nat x := 1]])"
proof -
  have l: "length c = H" using assms(1) by (simp add: rect_def)
  have r: "length (c ! nat y) = W" using rect_row[OF assms(1), of "nat y"] assms by simp
  have g: "list_get c y = Inr (c ! nat y)"
    using assms l by (simp add: list_get_def py_index_def)
  have s1: "list_set (c ! nat y) x 1 = Inr ((c ! nat y)[nat x := 1])"
    using assms r by (simp add: list_set_def py_index_def)
  have s2: "list_set c y ((c ! nat y)[nat x := 1]) = Inr (c[nat y := (c ! nat y)[nat x := 1]])"
    using assms l by (simp add: list_set_def py_index_def)
  show ?thesis unfolding canvas_put_def by (simp only: g s1 s2 sum.case)
qed

lemma bit_pos_nonneg:
  fixes w :: int
  assumes "b < nat w"
  shows "0 \<le> (w + 7) div 8 * 8 - 1 - int b"
proof -
  have "w \<le> (w + 7) div 8 * 8" by presburger
  then show ?thesis using assms by simp
qed

lemma copy_row_spec:
  assumes "rect c H W" "W = nat tw" "0 \<le> cy" "cy < int H" "\<forall>b\<in>set idxs. b < nat w"
  shows "\<exists>c'. copy_row w left tw row_val cy idxs c = Inr c' \<and> rect c' H W \<and>
           (\<forall>y<H. \<forall>x<W. c' ! y ! x =
              (if y = nat cy \<and> (\<exists>b\<in>set idxs. int x = left + int b \<and> source_bit w row_val b)
               then 1 else c ! y ! x))"
  using assms
proof (induction idxs arbitrary: c)
  case Nil
  then show ?case by simp
next
  case (Cons b rest)
  define cx where "cx = left + int b"
  have rest: "\<forall>b\<in>set rest. b < nat w" using Cons.prems(5) by simp
  have bw: "b < nat w" using Cons.prems(5) by simp
  show ?case
  proof (cases "cx < 0 \<or> cx \<ge> tw")
    case True
    have step: "copy_row w left tw row_val cy (b # rest) c = copy_row w left tw row_val cy rest c"
      using True by (simp add: cx_def Let_def)
    from Cons.IH[OF Cons.prems(1-4) rest] obtain c' where
      c': "copy_row w left tw row_val cy rest c = Inr c'" "rect c' H W"
      "\<forall>y<H. \<forall>x<W. c' ! y ! x =
              (if y = nat cy \<and> (\<exists>b\<in>set rest. int x = left + int b \<and> source_bit w row_val b)
               then 1 else c ! y ! x)" by blast
    have "\<not> (int x = left + int b)" if "x < W" for x
      using True that Cons.prems(2) by (auto simp: cx_def)
    then have "\<forall>y<H. \<forall>x<W. c' ! y ! x =
              (if y = nat cy \<and> (\<exists>b\<in>set (b # rest). int x = left + int b \<and> source_bit w row_val b)
               then 1 else c ! y ! x)"
      using c'(3) by simp
    with c'(1,2) step show ?thesis by simp
  next
    case False
    then have inx: "0 \<le> cx" "cx < int W" using Cons.prems(2) by auto
    have sh: "rshift row_val ((w + 7) div 8 * 8 - 1 - int b)
                = Inr (drop_bit (nat ((w + 7) div 8 * 8 - 1 - int b)) row_val)"
      using bit_pos_nonneg[OF bw] by (simp add: rshift_def)
    show ?thesis
    proof (cases "source_bit w row_val b")
      case sb: True
      define c2 where "c2 = c[nat cy := (c ! nat cy)[nat cx := 1]]"
      have put: "canvas_put c cy cx = Inr c2"
        unfolding c2_def by (rule canvas_put_inside[OF Cons.prems(1) Cons.prems(3,4) inx])
      have r2: "rect c2 H W"
        unfolding c2_def using Cons.prems(1,3,4) by (intro rect_update) auto
      have step: "copy_row w left tw row_val cy (b # rest) c = copy_row w left tw row_val cy rest c2"
        using False sb sh put by (simp add: cx_def[symmetric] Let_def source_bit_def)
      from Cons.IH[OF r2 Cons.prems(2-4) rest] obtain c' where
        c': "copy_row w left tw row_val cy rest c2 = Inr c'" "rect c' H W"
        "\<forall>y<H. \<forall>x<W. c' ! y ! x =
              (if y = nat cy \<and> (\<exists>b\<in>set rest. int x = left + int b \<and> source_bit w row_val b)
               then 1 else c2 ! y ! x)" by blast
      have old: "c2 ! y ! x = (if y = nat cy \<and> int x = cx then 1 else c ! y ! x)"
        if "y < H" "x < W" for y x
      proof -
        have lc: "length c = H" using Cons.prems(1) by (simp add: rect_def)
        have lr: "length (c ! nat cy) = W"
          using rect_row[OF Cons.prems(1), of "nat cy"] Cons.prems(3,4) by simp
        have cyH: "nat cy < length c" using Cons.prems(3,4) lc by simp
        have e: "int x = cx \<longleftrightarrow> x = nat cx" using inx by auto
        show ?thesis
        proof (cases "y = nat cy")
          case True
          have "c2 ! y = (c ! nat cy)[nat cx := 1]" using True cyH by (simp add: c2_def)
          then show ?thesis using True e that lr by (simp add: nth_list_update)
        next
          case False
          then have "c2 ! y = c ! y" by (simp add: c2_def)
          then show ?thesis using False by simp
        qed
      qed
      have "\<forall>y<H. \<forall>x<W. c' ! y ! x =
              (if y = nat cy \<and> (\<exists>b\<in>set (b # rest). int x = left + int b \<and> source_bit w row_val b)
               then 1 else c ! y ! x)"
        using c'(3) old sb by (auto simp: cx_def)
      with c'(1,2) step show ?thesis by simp
    next
      case nb: False
      have step: "copy_row w left tw row_val cy (b # rest) c = copy_row w left tw row_val cy rest c"
        using False nb sh by (simp add: cx_def[symmetric] Let_def source_bit_def)
      from Cons.IH[OF Cons.prems(1-4) rest] obtain c' where
        c': "copy_row w left tw row_val cy rest c = Inr c'" "rect c' H W"
        "\<forall>y<H. \<forall>x<W. c' ! y ! x =
              (if y = nat cy \<and> (\<exists>b\<in>set rest. int x = left + int b \<and> source_bit w row_val b)
               then 1 else c ! y ! x)" by blast
      have "\<forall>y<H. \<forall>x<W. c' ! y ! x =
              (if y = nat cy \<and> (\<exists>b\<in>set (b # rest). int x = left + int b \<and> source_bit w row_val b)
               then 1 else c ! y ! x)"
        using c'(3) nb by auto
      with c'(1,2) step show ?thesis by simp
    qed
  qed
qed

lemma copy_rows_spec:
  assumes "rect c H W" "W = nat tw" "H = nat th"
  shows "\<exists>c'. copy_rows w left gtop tw th row_idx rows c = Inr c' \<and> rect c' H W \<and>
           (\<forall>y<H. \<forall>x<W. c' ! y ! x =
              (if \<exists>r<length rows. int y = gtop + int (row_idx + r) \<and>
                    (\<exists>b<nat w. int x = left + int b \<and> source_bit w (rows ! r) b)
               then 1 else c ! y ! x))"
  using assms
proof (induction rows arbitrary: row_idx c)
  case Nil
  then show ?case by simp
next
  case (Cons row_val rows)
  define cy where "cy = gtop + int row_idx"
  define hit where "hit = (\<lambda>rv (x::nat). \<exists>b<nat w. int x = left + int b \<and> source_bit w rv b)"
  have split: "(\<exists>r<length (row_val # rows). int y = gtop + int (row_idx + r) \<and> hit ((row_val # rows) ! r) x)
      \<longleftrightarrow> (int y = cy \<and> hit row_val x) \<or>
          (\<exists>r<length rows. int y = gtop + int (Suc row_idx + r) \<and> hit (rows ! r) x)" for y x
    by (simp add: Ex_less_Suc2 cy_def add.commute add.left_commute)
  show ?case
  proof (cases "cy < 0 \<or> cy \<ge> th")
    case True
    have step: "copy_rows w left gtop tw th row_idx (row_val # rows) c
                 = copy_rows w left gtop tw th (Suc row_idx) rows c"
      using True by (simp add: cy_def Let_def)
    from Cons.IH[OF Cons.prems, of "Suc row_idx"] obtain c' where
      c': "copy_rows w left gtop tw th (Suc row_idx) rows c = Inr c'" "rect c' H W"
      "\<forall>y<H. \<forall>x<W. c' ! y ! x =
              (if \<exists>r<length rows. int y = gtop + int (Suc row_idx + r) \<and> hit (rows ! r) x
               then 1 else c ! y ! x)" unfolding hit_def by blast
    have "int y \<noteq> cy" if "y < H" for y using True that Cons.prems(3) by auto
    then have "\<forall>y<H. \<forall>x<W. c' ! y ! x =
              (if \<exists>r<length (row_val # rows). int y = gtop + int (row_idx + r) \<and>
                    hit ((row_val # rows) ! r) x
               then 1 else c ! y ! x)"
      using c'(3) unfolding split by simp
    with c'(1,2) step show ?thesis unfolding hit_def by simp
  next
    case False
    then have iny: "0 \<le> cy" "cy < int H" using Cons.prems(3) by auto
    have idx: "\<forall>b\<in>set [0..<nat w]. b < nat w" by simp
    from copy_row_spec[OF Cons.prems(1,2) iny idx, of left row_val] obtain c1 where
      c1: "copy_row w left tw row_val cy [0..<nat w] c = Inr c1" "rect c1 H W"
      "\<forall>y<H. \<forall>x<W. c1 ! y ! x =
              (if y = nat cy \<and> (\<exists>b\<in>set [0..<nat w]. int x = left + int b \<and> source_bit w row_val b)
               then 1 else c ! y ! x)" by blast
    have c1px: "c1 ! y ! x = (if int y = cy \<and> hit row_val x then 1 else c ! y ! x)"
      if "y < H" "x < W" for y x
    proof -
      have "y = nat cy \<longleftrightarrow> int y = cy" using iny by auto
      moreover have "(\<exists>b\<in>set [0..<nat w]. int x = left + int b \<and> source_bit w row_val b)
                      \<longleftrightarrow> hit row_val x" by (auto simp: hit_def)
      ultimately show ?thesis using c1(3) that by simp
    qed
    have step: "copy_rows w left gtop tw th row_idx (row_val # rows) c
                 = copy_rows w left gtop tw th (Suc row_idx) rows c1"
      using False c1(1) by (simp add: cy_def[symmetric] Let_def)
    from Cons.IH[OF c1(2) Cons.prems(2,3), of "Suc row_idx"] obtain c' where
      c': "copy_rows w left gtop tw th (Suc row_idx) rows c1 = Inr c'" "rect c' H W"
      "\<forall>y<H. \<forall>x<W. c' ! y ! x =
              (if \<exists>r<length rows. int y = gtop + int (Suc row_idx + r) \<and> hit (rows ! r) x
               then 1 else c1 ! y ! x)" unfolding hit_def by blast
    have "\<forall>y<H. \<forall>x<W. c' ! y ! x =
              (if \<exists>r<length (row_val # rows). int y = gtop + int (row_idx + r) \<and>
                    hit ((row_val # rows) ! r) x
               then 1 else c ! y ! x)"
    proof (intro allI impI)
      fix y x assume yx: "y < H" "x < W"
      define A where "A = (\<exists>r<length rows. int y = gtop + int (Suc row_idx + r) \<and> hit (rows ! r) x)"
      define B where "B = (int y = cy \<and> hit row_val x)"
      have 1: "c' ! y ! x = (if A then 1 else c1 ! y ! x)" using c'(3) yx unfolding A_def by blast
      have 2: "c1 ! y ! x = (if B then 1 else c ! y ! x)" using c1px[OF yx] unfolding B_def .
      have "c' ! y ! x = (if B \<or> A then 1 else c ! y ! x)" using 1 2 by simp
      then show "c' ! y ! x =
              (if \<exists>r<length (row_val # rows). int y = gtop + int (row_idx + r) \<and>
                    hit ((row_val # rows) ! r) x
               then 1 else c ! y ! x)"
        unfolding split A_def B_def .
    qed
    with c'(1,2) step show ?thesis unfolding hit_def by simp
  qed
qed

lemma rect_blank: "rect (replicate H (replicate W 0)) H W"
  by (simp add: rect_def)

text \<open>The canvas that placement returns, pixel by pixel.\<close>

lemma place_glyph_spec:
  "\<exists>c. place_glyph g tw th fa = Inr c \<and> rect c (nat th) (nat tw) \<and>
     (\<forall>y<nat th. \<forall>x<nat tw. c ! y ! x =
        (if bbx_w g \<noteq> 0 \<and> bbx_h g \<noteq> 0 \<and>
            (\<exists>r<length (bitmap g). int y = fa - 1 - (bbx_y g + bbx_h g - 1) + int r \<and>
               (\<exists>b<nat (bbx_w g). int x = bbx_x g + int b \<and> source_bit (bbx_w g) (bitmap g ! r) b))
         then 1 else 0))"
proof (cases "bbx_w g = 0 \<or> bbx_h g = 0 \<or> bitmap g = []")
  case True
  then have "place_glyph g tw th fa = Inr (replicate (nat th) (replicate (nat tw) 0))"
    by (simp add: place_glyph_def)
  moreover have "\<not> (bbx_w g \<noteq> 0 \<and> bbx_h g \<noteq> 0 \<and>
            (\<exists>r<length (bitmap g). int y = fa - 1 - (bbx_y g + bbx_h g - 1) + int r \<and>
               (\<exists>b<nat (bbx_w g). int x = bbx_x g + int b \<and> source_bit (bbx_w g) (bitmap g ! r) b)))"
    for y x :: nat
    using True by auto
  ultimately show ?thesis using rect_blank[of "nat th" "nat tw"] by auto
next
  case False
  define blank :: canvas where "blank = replicate (nat th) (replicate (nat tw) 0)"
  have run: "place_glyph g tw th fa =
      copy_rows (bbx_w g) (bbx_x g) (fa - 1 - (bbx_y g + bbx_h g - 1)) tw th 0 (bitmap g) blank"
    using False by (simp add: place_glyph_def Let_def blank_def)
  have rb: "rect blank (nat th) (nat tw)" unfolding blank_def by (rule rect_blank)
  from copy_rows_spec[OF rb refl refl, of "bbx_w g" "bbx_x g" "fa - 1 - (bbx_y g + bbx_h g - 1)" 0 "bitmap g"]
  obtain c where c: "copy_rows (bbx_w g) (bbx_x g) (fa - 1 - (bbx_y g + bbx_h g - 1)) tw th 0 (bitmap g) blank = Inr c"
    "rect c (nat th) (nat tw)"
    "\<forall>y<nat th. \<forall>x<nat tw. c ! y ! x =
              (if \<exists>r<length (bitmap g). int y = fa - 1 - (bbx_y g + bbx_h g - 1) + int (0 + r) \<and>
                    (\<exists>b<nat (bbx_w g). int x = bbx_x g + int b \<and> source_bit (bbx_w g) (bitmap g ! r) b)
               then 1 else blank ! y ! x)" by blast
  have "\<forall>y<nat th. \<forall>x<nat tw. c ! y ! x =
        (if bbx_w g \<noteq> 0 \<and> bbx_h g \<noteq> 0 \<and>
            (\<exists>r<length (bitmap g). int y = fa - 1 - (bbx_y g + bbx_h g - 1) + int r \<and>
               (\<exists>b<nat (bbx_w g). int x = bbx_x g + int b \<and> source_bit (bbx_w g) (bitmap g ! r) b))
         then 1 else 0)"
  proof (intro allI impI)
    fix y x assume yx: "y < nat th" "x < nat tw"
    define A where "A = (\<exists>r<length (bitmap g). int y = fa - 1 - (bbx_y g + bbx_h g - 1) + int r \<and>
               (\<exists>b<nat (bbx_w g). int x = bbx_x g + int b \<and> source_bit (bbx_w g) (bitmap g ! r) b))"
    have "c ! y ! x = (if A then 1 else blank ! y ! x)" using c(3) yx unfolding A_def by simp
    moreover have "blank ! y ! x = 0" using yx by (simp add: blank_def)
    ultimately have "c ! y ! x = (if bbx_w g \<noteq> 0 \<and> bbx_h g \<noteq> 0 \<and> A then 1 else 0)"
      using False by simp
    then show "c ! y ! x =
        (if bbx_w g \<noteq> 0 \<and> bbx_h g \<noteq> 0 \<and>
            (\<exists>r<length (bitmap g). int y = fa - 1 - (bbx_y g + bbx_h g - 1) + int r \<and>
               (\<exists>b<nat (bbx_w g). int x = bbx_x g + int b \<and> source_bit (bbx_w g) (bitmap g ! r) b))
         then 1 else 0)" unfolding A_def .
  qed
  with c(1,2) run show ?thesis by simp
qed









section \<open>Verification: the container layout\<close>

lemma length_le_bytes: "length (le_bytes n v) = n"
  by (induction n arbitrary: v) auto

lemma le_value_le_bytes: "v < 256 ^ n \<Longrightarrow> le_value (le_bytes n v) = v"
proof (induction n arbitrary: v)
  case 0
  then show ?case by simp
next
  case (Suc n)
  have "v div 256 < 256 ^ n" using Suc.prems by (simp add: less_mult_imp_div_less mult.commute)
  from Suc.IH[OF this] show ?case by simp
qed

lemma pack_uint_Inr:
  "pack_uint n v = Inr bs \<longleftrightarrow> 0 \<le> v \<and> v < 256 ^ n \<and> bs = le_bytes n (nat v)"
  by (auto simp: pack_uint_def)

lemma pack_uint_Inl: "pack_uint n v = Inl e \<longleftrightarrow> e = StructError \<and> \<not> (0 \<le> v \<and> v < 256 ^ n)"
  by (auto simp: pack_uint_def)

lemma read_le_bytes:
  "0 \<le> v \<Longrightarrow> v < 256 ^ n \<Longrightarrow> le_value (le_bytes n (nat v)) = nat v"
proof -
  assume a: "0 \<le> v" "v < 256 ^ n"
  then have "nat v < 256 ^ n" by (simp add: nat_less_iff)
  then show ?thesis by (rule le_value_le_bytes)
qed

lemma concat_take_length:
  "\<forall>e\<in>set es. length e = m \<Longrightarrow> length (concat (take k es)) = m * min k (length es)"
proof -
  assume a: "\<forall>e\<in>set es. length e = m"
  have "\<forall>e\<in>set (take k es). length e = m" using a by (auto dest: in_set_takeD)
  then have "length (concat (take k es)) = m * length (take k es)"
    by (rule concat_uniform_length)
  then show ?thesis by (simp add: min.commute)
qed

text \<open>Reading inside chunk \<open>k\<close> of a table of chunks of \<open>m\<close> bytes that follows a header.\<close>

lemma read_chunk:
  assumes "\<forall>e\<in>set es. length e = m" "k < length es" "p + q \<le> m"
  shows "take q (drop (length h + m * k + p) (h @ concat es @ rest)) = take q (drop p (es ! k))"
proof -
  have es: "es = take k es @ es ! k # drop (Suc k) es" using assms(2) by (rule id_take_nth_drop)
  have lk: "length (concat (take k es)) = m * k"
    using concat_take_length[OF assms(1), of k] assms(2) by simp
  have le: "length (es ! k) = m" using assms(1,2) by simp
  have "concat es = concat (take k es) @ es ! k @ concat (drop (Suc k) es)"
    by (subst es) simp
  then have "drop (length h + m * k + p) (h @ concat es @ rest)
      = drop (m * k + p) (concat (take k es) @ es ! k @ concat (drop (Suc k) es) @ rest)"
    by (simp add: add.assoc)
  also have "\<dots> = drop p (es ! k @ concat (drop (Suc k) es) @ rest)"
    using lk by simp
  also have "\<dots> = drop p (es ! k) @ concat (drop (Suc k) es) @ rest"
    using le assms(3) by simp
  finally show ?thesis using le assms(3) by simp
qed

text \<open>Blob \<open>k\<close> of a concatenation starts where the blobs before it end.\<close>

lemma read_blob:
  assumes "k < length bs"
  shows "take (length (bs ! k)) (drop (length h + length (concat (take k bs))) (h @ concat bs))
           = bs ! k"
proof -
  have bs: "bs = take k bs @ bs ! k # drop (Suc k) bs" using assms by (rule id_take_nth_drop)
  have "concat bs = concat (take k bs) @ bs ! k @ concat (drop (Suc k) bs)"
    by (subst bs) simp
  then show ?thesis by simp
qed

lemma pack_header_Inr:
  assumes "pack_header v a b fl cnt aux = Inr h"
  shows "length h = 16 \<and> 0 \<le> a \<and> a \<le> 255 \<and> 0 \<le> b \<and> b \<le> 255 \<and>
         h = FONT_MAGIC @ le_bytes 1 (nat v) @ le_bytes 1 (nat a) @ le_bytes 1 (nat b) @
             le_bytes 1 (nat fl) @ le_bytes 4 (nat cnt) @ le_bytes 4 (nat aux) \<and>
         0 \<le> cnt \<and> cnt < 256 ^ 4"
  using assms
  by (auto simp: pack_header_def pack_uint_Inr FONT_MAGIC_def length_le_bytes
           split: sum.splits)

lemma header_count:
  assumes "pack_header v a b fl cnt aux = Inr h"
  shows "read_uint (h @ rest) 8 4 = nat cnt"
proof -
  from pack_header_Inr[OF assms] have
    h: "h = FONT_MAGIC @ le_bytes 1 (nat v) @ le_bytes 1 (nat a) @ le_bytes 1 (nat b) @
             le_bytes 1 (nat fl) @ le_bytes 4 (nat cnt) @ le_bytes 4 (nat aux)"
    and c: "0 \<le> cnt" "cnt < 256 ^ 4" by auto
  have "drop 8 (h @ rest) = le_bytes 4 (nat cnt) @ le_bytes 4 (nat aux) @ rest"
    unfolding h by (simp add: FONT_MAGIC_def length_le_bytes)
  then have "take 4 (drop 8 (h @ rest)) = le_bytes 4 (nat cnt)"
    by (simp add: length_le_bytes)
  then show ?thesis using read_le_bytes[OF c] by (simp add: read_uint_def)
qed

text \<open>
  The reading side: the glyph count of the header and the fields of index entry \<open>k\<close>, at
  the places the format gives them (6 bytes an entry in the fixed format, 10 in the variable).
\<close>

definition header_glyph_count :: "bytes \<Rightarrow> nat" where
  "header_glyph_count file = read_uint file 8 4"

definition fixed_entry_codepoint :: "bytes \<Rightarrow> nat \<Rightarrow> nat" where
  "fixed_entry_codepoint file k = read_uint file (16 + 6 * k) 2"

definition fixed_entry_offset :: "bytes \<Rightarrow> nat \<Rightarrow> nat" where
  "fixed_entry_offset file k = read_uint file (16 + 6 * k + 2) 4"

lemma distinct_map_insort_key:
  "distinct (map f (insort_key f x xs)) \<longleftrightarrow> f x \<notin> f ` set xs \<and> distinct (map f xs)"
  by (induction xs) (auto simp: set_insort_key)

lemma distinct_map_sort_key:
  "distinct (map f (sort_key f xs)) \<longleftrightarrow> distinct (map f xs)"
  by (induction xs) (auto simp: distinct_map_insort_key)

lemma valid_glyphs_strict:
  assumes "distinct (map encoding glyphs)"
  shows "sorted_wrt (<) (map encoding (valid_glyphs glyphs))"
proof -
  have "distinct (map encoding (filter (\<lambda>g. 0 < encoding g \<and> encoding g \<le> 65535) glyphs))"
    using assms by (rule distinct_map_filter)
  then have "distinct (map encoding (valid_glyphs glyphs))"
    by (simp add: valid_glyphs_def distinct_map_sort_key)
  moreover have "sorted (map encoding (valid_glyphs glyphs))"
    by (simp add: valid_glyphs_def)
  ultimately show ?thesis by (simp add: strict_sorted_iff)
qed

lemma render_glyph_length:
  assumes "render_glyph_to_fixed_size g tw th fa fd = Inr bm"
  shows "length bm = (nat tw * nat th + 7) div 8"
proof -
  from place_glyph_spec[of g tw th fa] obtain c where
    c: "place_glyph g tw th fa = Inr c" "rect c (nat th) (nat tw)" by blast
  have "length (concat c) = nat tw * nat th"
    using concat_uniform_length[of c "nat tw"] c(2) by (simp add: rect_def)
  then have "length (pack_bits (concat c)) = (nat tw * nat th + 7) div 8"
    using pack_bits_spec[of "concat c"] by simp
  then show ?thesis
    using assms by (simp add: render_glyph_to_fixed_size_def c(1) packers_agree)
qed

lemma render_all_spec:
  "render_all gs tw th fa fd = Inr rendered \<Longrightarrow>
     map fst rendered = map encoding gs \<and>
     (\<forall>bm\<in>set (map snd rendered). length bm = (nat tw * nat th + 7) div 8)"
proof (induction gs arbitrary: rendered)
  case Nil
  then show ?case by simp
next
  case (Cons g gs)
  from Cons.prems obtain bm rest where
    r: "render_glyph_to_fixed_size g tw th fa fd = Inr bm" "render_all gs tw th fa fd = Inr rest"
       "rendered = (encoding g, bm) # rest"
    by (auto split: sum.splits)
  from Cons.IH[OF r(2)] render_glyph_length[OF r(1)] r(3) show ?case by simp
qed

text \<open>The index loop of the fixed format: what it appends to the two buffers.\<close>

lemma fixed_index_spec:
  "fixed_index start bpg i rendered idx bm = Inr (idx', bm') \<Longrightarrow>
     \<exists>es. idx' = idx @ concat es \<and> length es = length rendered \<and>
          bm' = bm @ concat (map snd rendered) \<and>
          (\<forall>k<length rendered.
             es ! k = le_bytes 2 (nat (fst (rendered ! k))) @
                      le_bytes 4 (nat (start + int (i + k) * bpg)) \<and>
             0 \<le> fst (rendered ! k) \<and> fst (rendered ! k) < 256 ^ 2 \<and>
             0 \<le> start + int (i + k) * bpg \<and> start + int (i + k) * bpg < 256 ^ 4)"
proof (induction rendered arbitrary: i idx bm)
  case Nil
  then show ?case by simp
next
  case (Cons a rendered)
  obtain cp b where a: "a = (cp, b)" by (cases a)
  from Cons.prems obtain entry where
    e: "pack_entry_fixed cp (start + int i * bpg) = Inr entry"
       "fixed_index start bpg (Suc i) rendered (idx @ entry) (bm @ b) = Inr (idx', bm')"
    by (auto simp: a Let_def split: sum.splits)
  from e(1) have entry: "entry = le_bytes 2 (nat cp) @ le_bytes 4 (nat (start + int i * bpg))"
    "0 \<le> cp" "cp < 256 ^ 2" "0 \<le> start + int i * bpg" "start + int i * bpg < 256 ^ 4"
    by (auto simp: pack_entry_fixed_def pack_uint_Inr split: sum.splits)
  from Cons.IH[OF e(2)] obtain es where
    es: "idx' = (idx @ entry) @ concat es" "length es = length rendered"
        "bm' = (bm @ b) @ concat (map snd rendered)"
        "\<forall>k<length rendered.
             es ! k = le_bytes 2 (nat (fst (rendered ! k))) @
                      le_bytes 4 (nat (start + int (Suc i + k) * bpg)) \<and>
             0 \<le> fst (rendered ! k) \<and> fst (rendered ! k) < 256 ^ 2 \<and>
             0 \<le> start + int (Suc i + k) * bpg \<and> start + int (Suc i + k) * bpg < 256 ^ 4"
    by blast
  have "\<forall>k<length (a # rendered).
             (entry # es) ! k = le_bytes 2 (nat (fst ((a # rendered) ! k))) @
                      le_bytes 4 (nat (start + int (i + k) * bpg)) \<and>
             0 \<le> fst ((a # rendered) ! k) \<and> fst ((a # rendered) ! k) < 256 ^ 2 \<and>
             0 \<le> start + int (i + k) * bpg \<and> start + int (i + k) * bpg < 256 ^ 4"
  proof (intro allI impI)
    fix k assume k: "k < length (a # rendered)"
    show "(entry # es) ! k = le_bytes 2 (nat (fst ((a # rendered) ! k))) @
                      le_bytes 4 (nat (start + int (i + k) * bpg)) \<and>
             0 \<le> fst ((a # rendered) ! k) \<and> fst ((a # rendered) ! k) < 256 ^ 2 \<and>
             0 \<le> start + int (i + k) * bpg \<and> start + int (i + k) * bpg < 256 ^ 4"
    proof (cases k)
      case 0
      then show ?thesis using entry a by simp
    next
      case (Suc k')
      then have "k' < length rendered" using k by simp
      with es(4) have "es ! k' = le_bytes 2 (nat (fst (rendered ! k'))) @
                      le_bytes 4 (nat (start + int (Suc i + k') * bpg)) \<and>
             0 \<le> fst (rendered ! k') \<and> fst (rendered ! k') < 256 ^ 2 \<and>
             0 \<le> start + int (Suc i + k') * bpg \<and> start + int (Suc i + k') * bpg < 256 ^ 4"
        by blast
      moreover have "Suc i + k' = i + k" using Suc by simp
      ultimately show ?thesis using Suc by simp
    qed
  qed
  moreover have "idx' = idx @ concat (entry # es)" using es(1) by simp
  moreover have "length (entry # es) = length (a # rendered)" using es(2) by simp
  moreover have "bm' = bm @ concat (map snd (a # rendered))" using es(3) a by simp
  ultimately show ?case by blast
qed

definition variable_entry_codepoint :: "bytes \<Rightarrow> nat \<Rightarrow> nat" where
  "variable_entry_codepoint out k = read_uint out (16 + 10 * k) 4"

definition variable_entry_offset :: "bytes \<Rightarrow> nat \<Rightarrow> nat" where
  "variable_entry_offset out k = read_uint out (16 + 10 * k + 4) 4"

definition glyph_bitmap :: "rendered_glyph \<Rightarrow> bytes" where
  "glyph_bitmap g = (case g of (cp, bm, width, height) \<Rightarrow> bm)"

definition glyph_width :: "rendered_glyph \<Rightarrow> int" where
  "glyph_width g = (case g of (cp, bm, width, height) \<Rightarrow> width)"

definition glyph_height :: "rendered_glyph \<Rightarrow> int" where
  "glyph_height g = (case g of (cp, bm, width, height) \<Rightarrow> height)"

text \<open>The offset that the index loop has reached in front of glyph \<open>k\<close>.\<close>

definition offset_at :: "int \<Rightarrow> rendered_glyph list \<Rightarrow> nat \<Rightarrow> int" where
  "offset_at start glyphs k = start + int (length (concat (take k (map glyph_bitmap glyphs))))"

text \<open>Entry \<open>k\<close> can be packed: every field is in the range of its format.\<close>

definition entry_fits :: "int \<Rightarrow> rendered_glyph list \<Rightarrow> nat \<Rightarrow> bool" where
  "entry_fits start glyphs k =
     (int (fst (glyphs ! k)) < 256 ^ 4 \<and>
      0 \<le> offset_at start glyphs k \<and> offset_at start glyphs k < 256 ^ 4 \<and>
      0 \<le> glyph_width (glyphs ! k) \<and> glyph_width (glyphs ! k) \<le> 255 \<and>
      0 \<le> glyph_height (glyphs ! k) \<and> glyph_height (glyphs ! k) \<le> 255)"

lemma offset_at_0: "offset_at start glyphs 0 = start"
  by (simp add: offset_at_def)

lemma offset_at_Suc:
  "offset_at start (g # glyphs) (Suc k) = offset_at (start + int (length (glyph_bitmap g))) glyphs k"
  by (simp add: offset_at_def)

lemma offset_at_step:
  "k < length glyphs \<Longrightarrow>
   offset_at start glyphs (Suc k) = offset_at start glyphs k + int (length (glyph_bitmap (glyphs ! k)))"
  by (simp add: offset_at_def take_Suc_conv_app_nth)

lemma pack_entry_variable_Inr:
  "pack_entry_variable cp off w h = Inr entry \<longleftrightarrow>
     0 \<le> cp \<and> cp < 256 ^ 4 \<and> 0 \<le> off \<and> off < 256 ^ 4 \<and>
     0 \<le> w \<and> w \<le> 255 \<and> 0 \<le> h \<and> h \<le> 255 \<and>
     entry = le_bytes 4 (nat cp) @ le_bytes 4 (nat off) @ le_bytes 1 (nat w) @ le_bytes 1 (nat h)"
  by (auto simp: pack_entry_variable_def pack_uint_def)

lemma pack_entry_variable_Inl:
  "pack_entry_variable cp off w h = Inl e \<Longrightarrow> e = StructError"
  by (auto simp: pack_entry_variable_def pack_uint_def split: if_splits)

lemma variable_index_spec:
  "variable_index start glyphs out = Inr out' \<Longrightarrow>
     \<exists>es. out' = out @ concat es \<and> length es = length glyphs \<and>
          (\<forall>k<length glyphs.
             es ! k = le_bytes 4 (fst (glyphs ! k)) @ le_bytes 4 (nat (offset_at start glyphs k)) @
                      le_bytes 1 (nat (glyph_width (glyphs ! k))) @
                      le_bytes 1 (nat (glyph_height (glyphs ! k))) \<and>
             entry_fits start glyphs k)"
proof (induction glyphs arbitrary: start out)
  case Nil
  then show ?case by simp
next
  case (Cons g glyphs)
  obtain cp bm w h where g: "g = (cp, bm, w, h)" by (cases g)
  from Cons.prems obtain entry where
    e: "pack_entry_variable (int cp) start w h = Inr entry"
       "variable_index (start + int (length bm)) glyphs (out @ entry) = Inr out'"
    by (auto simp: g split: sum.splits)
  from e(1) have entry:
    "entry = le_bytes 4 cp @ le_bytes 4 (nat start) @ le_bytes 1 (nat w) @ le_bytes 1 (nat h)"
    "int cp < 256 ^ 4" "0 \<le> start" "start < 256 ^ 4" "0 \<le> w" "w \<le> 255" "0 \<le> h" "h \<le> 255"
    by (auto simp: pack_entry_variable_Inr)
  from Cons.IH[OF e(2)] obtain es where
    es: "out' = (out @ entry) @ concat es" "length es = length glyphs"
        "\<forall>k<length glyphs.
             es ! k = le_bytes 4 (fst (glyphs ! k)) @
                      le_bytes 4 (nat (offset_at (start + int (length bm)) glyphs k)) @
                      le_bytes 1 (nat (glyph_width (glyphs ! k))) @
                      le_bytes 1 (nat (glyph_height (glyphs ! k))) \<and>
             entry_fits (start + int (length bm)) glyphs k"
    by blast
  have gb: "glyph_bitmap g = bm" "glyph_width g = w" "glyph_height g = h" "fst g = cp"
    by (simp_all add: g glyph_bitmap_def glyph_width_def glyph_height_def)
  have "\<forall>k<length (g # glyphs).
             (entry # es) ! k = le_bytes 4 (fst ((g # glyphs) ! k)) @
                      le_bytes 4 (nat (offset_at start (g # glyphs) k)) @
                      le_bytes 1 (nat (glyph_width ((g # glyphs) ! k))) @
                      le_bytes 1 (nat (glyph_height ((g # glyphs) ! k))) \<and>
             entry_fits start (g # glyphs) k"
  proof (intro allI impI)
    fix k assume k: "k < length (g # glyphs)"
    show "(entry # es) ! k = le_bytes 4 (fst ((g # glyphs) ! k)) @
                      le_bytes 4 (nat (offset_at start (g # glyphs) k)) @
                      le_bytes 1 (nat (glyph_width ((g # glyphs) ! k))) @
                      le_bytes 1 (nat (glyph_height ((g # glyphs) ! k))) \<and>
             entry_fits start (g # glyphs) k"
    proof (cases k)
      case 0
      then show ?thesis using entry gb by (simp add: entry_fits_def offset_at_0)
    next
      case (Suc k')
      then have "k' < length glyphs" using k by simp
      with es(3) have "es ! k' = le_bytes 4 (fst (glyphs ! k')) @
                      le_bytes 4 (nat (offset_at (start + int (length bm)) glyphs k')) @
                      le_bytes 1 (nat (glyph_width (glyphs ! k'))) @
                      le_bytes 1 (nat (glyph_height (glyphs ! k'))) \<and>
             entry_fits (start + int (length bm)) glyphs k'" by blast
      then show ?thesis using Suc gb by (simp add: entry_fits_def offset_at_Suc)
    qed
  qed
  moreover have "out' = out @ concat (entry # es)" using es(1) by simp
  moreover have "length (entry # es) = length (g # glyphs)" using es(2) by simp
  ultimately show ?case by blast
qed

lemma variable_index_total:
  "(\<forall>k<length glyphs. entry_fits start glyphs k) \<Longrightarrow>
     \<exists>out'. variable_index start glyphs out = Inr out'"
proof (induction glyphs arbitrary: start out)
  case Nil
  then show ?case by simp
next
  case (Cons g glyphs)
  obtain cp bm w h where g: "g = (cp, bm, w, h)" by (cases g)
  have gb: "glyph_bitmap g = bm" "glyph_width g = w" "glyph_height g = h" "fst g = cp"
    by (simp_all add: g glyph_bitmap_def glyph_width_def glyph_height_def)
  have "entry_fits start (g # glyphs) 0" using Cons.prems by simp
  then have "\<exists>entry. pack_entry_variable (int cp) start w h = Inr entry"
    using gb by (simp add: entry_fits_def offset_at_0 pack_entry_variable_Inr)
  then obtain entry where e: "pack_entry_variable (int cp) start w h = Inr entry" by blast
  have "\<forall>k<length glyphs. entry_fits (start + int (length bm)) glyphs k"
  proof (intro allI impI)
    fix k assume "k < length glyphs"
    then have "entry_fits start (g # glyphs) (Suc k)" using Cons.prems by simp
    then show "entry_fits (start + int (length bm)) glyphs k"
      using gb by (simp add: entry_fits_def offset_at_Suc)
  qed
  from Cons.IH[OF this, of "out @ entry"] show ?case using e by (simp add: g)
qed

lemma variable_index_raises:
  "k < length glyphs \<Longrightarrow> \<not> entry_fits start glyphs k \<Longrightarrow>
     \<exists>written. variable_index start glyphs out = Inl (StructError, written)"
proof (induction glyphs arbitrary: start out k)
  case Nil
  then show ?case by simp
next
  case (Cons g glyphs)
  obtain cp bm w h where g: "g = (cp, bm, w, h)" by (cases g)
  have gb: "glyph_bitmap g = bm" "glyph_width g = w" "glyph_height g = h" "fst g = cp"
    by (simp_all add: g glyph_bitmap_def glyph_width_def glyph_height_def)
  show ?case
  proof (cases "pack_entry_variable (int cp) start w h")
    case (Inl e)
    then have "e = StructError" by (rule pack_entry_variable_Inl)
    with Inl show ?thesis by (simp add: g)
  next
    case (Inr entry)
    then have fits0: "entry_fits start (g # glyphs) 0"
      using gb by (simp add: entry_fits_def offset_at_0 pack_entry_variable_Inr)
    then obtain k' where k': "k = Suc k'" using Cons.prems(2) by (cases k) auto
    then have "k' < length glyphs" "\<not> entry_fits (start + int (length bm)) glyphs k'"
      using Cons.prems gb by (simp_all add: entry_fits_def offset_at_Suc)
    from Cons.IH[OF this, of "out @ entry"] show ?thesis using Inr by (simp add: g)
  qed
qed

lemma take_drop_append_chunks:
  assumes "\<forall>e\<in>set es. length e = m" "k < length es" "p + q \<le> m" "length h = 16"
  shows "read_uint (h @ concat es @ rest) (16 + m * k + p) q = le_value (take q (drop p (es ! k)))"
  using read_chunk[OF assms(1-3), of h rest] assms(4) by (simp add: read_uint_def)

text \<open>What the fixed-format encoder writes, read back field by field.\<close>

lemma write_fnt_layout:
  assumes "write_fnt W H rendered = (st, Some out)"
  shows "st = Returned_None \<and> 0 \<le> W \<and> W \<le> 255 \<and> 0 \<le> H \<and> H \<le> 255 \<and>
         header_glyph_count out = length rendered \<and>
         (\<exists>h. length h = 16 + 6 * length rendered \<and> out = h @ concat (map snd rendered)) \<and>
         (\<forall>k<length rendered.
            int (fixed_entry_codepoint out k) = fst (rendered ! k) \<and>
            fst (rendered ! k) < 65536 \<and>
            int (fixed_entry_offset out k) =
              16 + 6 * int (length rendered) + int k * ((W * H + 7) div 8))"
proof -
  define n where "n = length rendered"
  define bpg where "bpg = (W * H + 7) div 8"
  from assms obtain header idx bmd where
    h: "pack_header 1 W H 0 (int n) 16 = Inr header"
    and f: "fixed_index (16 + int n * 6) bpg 0 rendered [] [] = Inr (idx, bmd)"
    and out: "out = header @ idx @ bmd" and st: "st = Returned_None"
    by (auto simp: write_fnt_def Let_def n_def bpg_def split: sum.splits prod.splits)
  from pack_header_Inr[OF h] have hl: "length header = 16"
    and dims: "0 \<le> W" "W \<le> 255" "0 \<le> H" "H \<le> 255" by auto
  from fixed_index_spec[OF f] obtain es where
    es: "idx = concat es" "length es = n" "bmd = concat (map snd rendered)"
        "\<forall>k<n. es ! k = le_bytes 2 (nat (fst (rendered ! k))) @
                      le_bytes 4 (nat (16 + int n * 6 + int (0 + k) * bpg)) \<and>
             0 \<le> fst (rendered ! k) \<and> fst (rendered ! k) < 256 ^ 2 \<and>
             0 \<le> 16 + int n * 6 + int (0 + k) * bpg \<and> 16 + int n * 6 + int (0 + k) * bpg < 256 ^ 4"
    unfolding n_def by auto
  have el: "\<forall>e\<in>set es. length e = 6"
  proof
    fix e assume "e \<in> set es"
    then obtain k where "k < n" "e = es ! k" using es(2) by (auto simp: in_set_conv_nth)
    then show "length e = 6" using es(4) by (simp add: length_le_bytes)
  qed
  have o: "out = header @ concat es @ concat (map snd rendered)" using out es(1,3) by simp
  have cnt: "header_glyph_count out = n"
    unfolding header_glyph_count_def out using header_count[OF h] by simp
  have il: "length (concat es) = 6 * n" using concat_uniform_length[OF el] es(2) by simp
  have blob: "\<exists>h. length h = 16 + 6 * n \<and> out = h @ concat (map snd rendered)"
  proof (intro exI conjI)
    show "length (header @ concat es) = 16 + 6 * n" using hl il by simp
    show "out = (header @ concat es) @ concat (map snd rendered)" using o by simp
  qed
  have ent: "int (fixed_entry_codepoint out k) = fst (rendered ! k) \<and>
            fst (rendered ! k) < 65536 \<and>
            int (fixed_entry_offset out k) = 16 + 6 * int n + int k * bpg" if k: "k < n" for k
  proof -
    have kk: "k < length es" using k es(2) by simp
    from es(4) k have e: "es ! k = le_bytes 2 (nat (fst (rendered ! k))) @
                      le_bytes 4 (nat (16 + int n * 6 + int k * bpg))"
      and r: "0 \<le> fst (rendered ! k)" "fst (rendered ! k) < 256 ^ 2"
             "0 \<le> 16 + int n * 6 + int k * bpg" "16 + int n * 6 + int k * bpg < 256 ^ 4"
      by auto
    have "fixed_entry_codepoint out k = le_value (take 2 (drop 0 (es ! k)))"
      unfolding fixed_entry_codepoint_def o
      using take_drop_append_chunks[OF el kk _ hl, of 0 2] by simp
    then have c: "fixed_entry_codepoint out k = nat (fst (rendered ! k))"
      using read_le_bytes[OF r(1,2)] by (simp add: e length_le_bytes)
    have "fixed_entry_offset out k = le_value (take 4 (drop 2 (es ! k)))"
      unfolding fixed_entry_offset_def o
      using take_drop_append_chunks[OF el kk _ hl, of 2 4] by simp
    then have "fixed_entry_offset out k = nat (16 + int n * 6 + int k * bpg)"
      using read_le_bytes[OF r(3,4)] by (simp add: e length_le_bytes)
    then show ?thesis using c r by simp
  qed
  show ?thesis using st dims cnt blob ent unfolding n_def bpg_def by blast
qed

text \<open>The same for the variable-format encoder.\<close>

lemma write_font_layout:
  assumes "write_font glyphs mw mh = (Returned_True, Some out)"
  shows "glyphs \<noteq> [] \<and> header_glyph_count out = length glyphs \<and>
         (\<exists>h. length h = 16 + 10 * length glyphs \<and> out = h @ concat (map glyph_bitmap glyphs)) \<and>
         (\<forall>k<length glyphs.
            variable_entry_codepoint out k = fst (glyphs ! k) \<and>
            int (variable_entry_offset out k) =
              offset_at (16 + 10 * int (length glyphs)) glyphs k)"
proof -
  define n where "n = length glyphs"
  have ne: "glyphs \<noteq> []" using assms by (auto simp: write_font_def)
  from assms ne obtain header body where
    h: "pack_header FONT_VERSION mw mh 1 (int n) 0 = Inr header"
    and v: "variable_index (16 + int n * 10) glyphs header = Inr body"
    and out: "out = body @ concat (map (\<lambda>(cp, bm, width, height). bm) glyphs)"
    by (auto simp: write_font_def Let_def n_def split: sum.splits prod.splits)
  have gbm: "map (\<lambda>(cp, bm, width, height). bm) glyphs = map glyph_bitmap glyphs"
    by (auto simp: glyph_bitmap_def)
  from pack_header_Inr[OF h] have hl: "length header = 16" by auto
  from variable_index_spec[OF v] obtain es where
    es: "body = header @ concat es" "length es = n"
        "\<forall>k<n. es ! k = le_bytes 4 (fst (glyphs ! k)) @
                      le_bytes 4 (nat (offset_at (16 + int n * 10) glyphs k)) @
                      le_bytes 1 (nat (glyph_width (glyphs ! k))) @
                      le_bytes 1 (nat (glyph_height (glyphs ! k))) \<and>
             entry_fits (16 + int n * 10) glyphs k"
    unfolding n_def by auto
  have el: "\<forall>e\<in>set es. length e = 10"
  proof
    fix e assume "e \<in> set es"
    then obtain k where "k < n" "e = es ! k" using es(2) by (auto simp: in_set_conv_nth)
    then show "length e = 10" using es(3) by (simp add: length_le_bytes)
  qed
  have o: "out = header @ concat es @ concat (map glyph_bitmap glyphs)"
    using out es(1) gbm by simp
  have cnt: "header_glyph_count out = n"
    unfolding header_glyph_count_def o using header_count[OF h] by simp
  have il: "length (concat es) = 10 * n" using concat_uniform_length[OF el] es(2) by simp
  have blob: "\<exists>h. length h = 16 + 10 * n \<and> out = h @ concat (map glyph_bitmap glyphs)"
  proof (intro exI conjI)
    show "length (header @ concat es) = 16 + 10 * n" using hl il by simp
    show "out = (header @ concat es) @ concat (map glyph_bitmap glyphs)" using o by simp
  qed
  have ent: "variable_entry_codepoint out k = fst (glyphs ! k) \<and>
            int (variable_entry_offset out k) = offset_at (16 + 10 * int n) glyphs k"
    if k: "k < n" for k
  proof -
    have kk: "k < length es" using k es(2) by simp
    from es(3) k have e: "es ! k = le_bytes 4 (fst (glyphs ! k)) @
                      le_bytes 4 (nat (offset_at (16 + int n * 10) glyphs k)) @
                      le_bytes 1 (nat (glyph_width (glyphs ! k))) @
                      le_bytes 1 (nat (glyph_height (glyphs ! k)))"
      and fits: "entry_fits (16 + int n * 10) glyphs k" by auto
    from fits have r: "int (fst (glyphs ! k)) < 256 ^ 4"
      "0 \<le> offset_at (16 + int n * 10) glyphs k" "offset_at (16 + int n * 10) glyphs k < 256 ^ 4"
      by (simp_all add: entry_fits_def)
    have "variable_entry_codepoint out k = le_value (take 4 (drop 0 (es ! k)))"
      unfolding variable_entry_codepoint_def o
      using take_drop_append_chunks[OF el kk _ hl, of 0 4] by simp
    moreover have "le_value (le_bytes 4 (fst (glyphs ! k))) = fst (glyphs ! k)"
      using r(1) by (intro le_value_le_bytes) simp
    ultimately have c: "variable_entry_codepoint out k = fst (glyphs ! k)"
      by (simp add: e length_le_bytes)
    have "variable_entry_offset out k = le_value (take 4 (drop 4 (es ! k)))"
      unfolding variable_entry_offset_def o
      using take_drop_append_chunks[OF el kk _ hl, of 4 4] by simp
    then have "variable_entry_offset out k = nat (offset_at (16 + int n * 10) glyphs k)"
      using read_le_bytes[OF r(2,3)] by (simp add: e length_le_bytes)
    then show ?thesis using c r by (simp add: mult.commute)
  qed
  show ?thesis using ne cnt blob ent unfolding n_def by blast
qed

text \<open>
  A container whose blob offsets are contiguous: the count of the header is the number of
  blobs, the first offset is the header plus the index, each next offset is the one before
  plus the length of the blob before, every blob stands in the file at its offset, and the
  file ends with the last blob.
\<close>

definition contiguous :: "bytes \<Rightarrow> nat \<Rightarrow> (nat \<Rightarrow> nat) \<Rightarrow> bytes list \<Rightarrow> bool" where
  "contiguous out entry_size offset_of blobs =
     (header_glyph_count out = length blobs \<and>
      (0 < length blobs \<longrightarrow> offset_of 0 = 16 + length blobs * entry_size) \<and>
      (\<forall>i. Suc i < length blobs \<longrightarrow> offset_of (Suc i) = offset_of i + length (blobs ! i)) \<and>
      (\<forall>i<length blobs. take (length (blobs ! i)) (drop (offset_of i) out) = blobs ! i) \<and>
      length out = 16 + length blobs * entry_size + length (concat blobs))"

lemma contiguousI:
  assumes "out = h @ concat blobs" "length h = 16 + length blobs * entry_size"
    and "header_glyph_count out = length blobs"
    and "\<And>k. k < length blobs \<Longrightarrow> offset_of k = length h + length (concat (take k blobs))"
  shows "contiguous out entry_size offset_of blobs"
proof -
  have first: "offset_of 0 = 16 + length blobs * entry_size" if "0 < length blobs"
    using assms(4)[OF that] assms(2) by simp
  have step: "offset_of (Suc i) = offset_of i + length (blobs ! i)" if "Suc i < length blobs" for i
  proof -
    have i: "i < length blobs" using that by simp
    have "take (Suc i) blobs = take i blobs @ [blobs ! i]" using i by (rule take_Suc_conv_app_nth)
    then show ?thesis using assms(4)[OF that] assms(4)[OF i] by simp
  qed
  have blob: "take (length (blobs ! i)) (drop (offset_of i) out) = blobs ! i"
    if i: "i < length blobs" for i
    using read_blob[OF i, of h] assms(4)[OF i] assms(1) by simp
  have "length out = 16 + length blobs * entry_size + length (concat blobs)"
    using assms(1,2) by simp
  then show ?thesis using assms(3) first step blob unfolding contiguous_def by blast
qed

lemma fixed_contiguous:
  assumes "render_all gs W H fa fd = Inr rendered" "write_fnt W H rendered = (st, Some out)"
  shows "contiguous out 6 (fixed_entry_offset out) (map snd rendered)"
proof -
  define L where "L = (nat W * nat H + 7) div 8"
  from write_fnt_layout[OF assms(2)] obtain h where
    dims: "0 \<le> W" "0 \<le> H" and cnt: "header_glyph_count out = length rendered"
    and h: "length h = 16 + 6 * length rendered" "out = h @ concat (map snd rendered)"
    and ent: "\<forall>k<length rendered. int (fixed_entry_offset out k) =
              16 + 6 * int (length rendered) + int k * ((W * H + 7) div 8)" by blast
  have len: "\<forall>bm\<in>set (map snd rendered). length bm = L"
    using render_all_spec[OF assms(1)] by (simp add: L_def)
  have "int (nat W * nat H) = W * H" using dims by simp
  then have bpg: "(W * H + 7) div 8 = int L"
    unfolding L_def by (metis of_nat_add of_nat_numeral zdiv_int)
  have off: "fixed_entry_offset out k = length h + length (concat (take k (map snd rendered)))"
    if k: "k < length (map snd rendered)" for k
  proof -
    have "length (concat (take k (map snd rendered))) = L * k"
      using concat_take_length[OF len, of k] k by simp
    moreover have "int (fixed_entry_offset out k) = 16 + 6 * int (length rendered) + int k * int L"
      using ent k bpg by simp
    ultimately have "int (fixed_entry_offset out k)
        = int (length h + length (concat (take k (map snd rendered))))"
      using h(1) by (simp add: mult.commute)
    then show ?thesis by (simp only: of_nat_eq_iff)
  qed
  show ?thesis
  proof (rule contiguousI[of out h])
    show "out = h @ concat (map snd rendered)" by (rule h(2))
    show "length h = 16 + length (map snd rendered) * 6" using h(1) by simp
    show "header_glyph_count out = length (map snd rendered)" using cnt by simp
  qed (rule off)
qed

lemma variable_contiguous:
  assumes "write_font glyphs mw mh = (Returned_True, Some out)"
  shows "contiguous out 10 (variable_entry_offset out) (map glyph_bitmap glyphs)"
proof -
  from write_font_layout[OF assms] obtain h where
    cnt: "header_glyph_count out = length glyphs"
    and h: "length h = 16 + 10 * length glyphs" "out = h @ concat (map glyph_bitmap glyphs)"
    and ent: "\<forall>k<length glyphs. int (variable_entry_offset out k) =
              offset_at (16 + 10 * int (length glyphs)) glyphs k" by blast
  have off: "variable_entry_offset out k
               = length h + length (concat (take k (map glyph_bitmap glyphs)))"
    if k: "k < length (map glyph_bitmap glyphs)" for k
  proof -
    have "int (variable_entry_offset out k)
        = int (length h + length (concat (take k (map glyph_bitmap glyphs))))"
      using ent k h(1) by (simp add: offset_at_def)
    then show ?thesis by (simp only: of_nat_eq_iff)
  qed
  show ?thesis
  proof (rule contiguousI[of out h])
    show "out = h @ concat (map glyph_bitmap glyphs)" by (rule h(2))
    show "length h = 16 + length (map glyph_bitmap glyphs) * 10" using h(1) by simp
    show "header_glyph_count out = length (map glyph_bitmap glyphs)" using cnt by simp
  qed (rule off)
qed

text \<open>
  Claim C6. In every container that either encoder writes, the first blob offset of the
  index is \<open>16 + glyph_count * entry_size\<close> (6 bytes an entry in the fixed format, 10 in the
  variable format) and \<open>offset[i+1] = offset[i] + length of bitmap i\<close> for all \<open>i\<close>; each
  bitmap stands at its offset and the last one ends the file, so there is no gap and no
  overlap.
\<close>

theorem layout_contiguity:
  "(parse_bdf lines = Inr (props, glyphs) \<and>
    rendered_glyphs props glyphs tw th = Inr rendered \<and>
    create_fnt_file lines tw th = (st, Some out)
      \<longrightarrow> contiguous out 6 (fixed_entry_offset out) (map snd rendered)) \<and>
   (render_loop f size_px (get_font_codepoints tables) [] 0 0 = Inr (outlines, mw, mh) \<and>
    create_font_file tables (Some f) size_px = (Returned_True, Some out')
      \<longrightarrow> contiguous out' 10 (variable_entry_offset out') (map glyph_bitmap outlines))"
proof (intro conjI impI)
  assume a: "parse_bdf lines = Inr (props, glyphs) \<and>
    rendered_glyphs props glyphs tw th = Inr rendered \<and>
    create_fnt_file lines tw th = (st, Some out)"
  then have p: "parse_bdf lines = Inr (props, glyphs)"
    and r: "rendered_glyphs props glyphs tw th = Inr rendered"
    and c: "create_fnt_file lines tw th = (st, Some out)" by simp_all
  have "write_fnt (target_width_of props tw) (target_height_of props th) rendered
               = (st, Some out)"
    using c by (simp add: create_fnt_file_def p r)
  moreover have "render_all (valid_glyphs glyphs) (target_width_of props tw)
      (target_height_of props th) (font_ascent_of props) (font_descent_of props) = Inr rendered"
    using a by (simp add: rendered_glyphs_def)
  ultimately show "contiguous out 6 (fixed_entry_offset out) (map snd rendered)"
    by (rule fixed_contiguous[rotated])
next
  assume a: "render_loop f size_px (get_font_codepoints tables) [] 0 0 = Inr (outlines, mw, mh) \<and>
    create_font_file tables (Some f) size_px = (Returned_True, Some out')"
  then have l: "render_loop f size_px (get_font_codepoints tables) [] 0 0 = Inr (outlines, mw, mh)"
    and c: "create_font_file tables (Some f) size_px = (Returned_True, Some out')" by simp_all
  have "write_font outlines mw mh = (Returned_True, Some out')"
    using c by (simp add: create_font_file_def l)
  then show "contiguous out' 10 (variable_entry_offset out') (map glyph_bitmap outlines)"
    by (rule variable_contiguous)
qed

lemma get_font_codepoints_strict: "sorted_wrt (<) (get_font_codepoints tables)"
  by (simp add: get_font_codepoints_def Let_def strict_sorted_iff)

lemma render_loop_sorted:
  "render_loop f s cps gs mw mh = Inr (gs', mw', mh') \<Longrightarrow>
   sorted_wrt (<) (map fst gs @ cps) \<Longrightarrow> sorted_wrt (<) (map fst gs')"
proof (induction cps arbitrary: gs mw mh)
  case Nil
  then show ?case by simp
next
  case (Cons cp cps)
  have skip: "sorted_wrt (<) (map fst gs @ cps)"
    using Cons.prems(2) by (auto simp: sorted_wrt_append)
  have keep: "sorted_wrt (<) (map fst (gs @ [(cp, b, w, h)]) @ cps)" for b w h
    using Cons.prems(2) by simp
  from Cons.prems(1) show ?case
    using Cons.IH[OF _ skip] Cons.IH[OF _ keep]
    by (auto split: sum.splits option.splits if_splits)
qed

text \<open>
  Claim C7. In every container written by the fixed-format encoder from a source whose
  glyphs have distinct encodings, and in every container written by the variable-format
  encoder, the codepoints of the index entries are strictly increasing, so no two entries
  share a codepoint.
\<close>

theorem index_strictly_increasing:
  "(parse_bdf lines = Inr (props, glyphs) \<and> distinct (map encoding glyphs) \<and>
    create_fnt_file lines tw th = (st, Some out)
      \<longrightarrow> (\<forall>i. Suc i < header_glyph_count out \<longrightarrow>
             fixed_entry_codepoint out i < fixed_entry_codepoint out (Suc i))) \<and>
   (create_font_file tables loaded size_px = (Returned_True, Some out')
      \<longrightarrow> (\<forall>i. Suc i < header_glyph_count out' \<longrightarrow>
             variable_entry_codepoint out' i < variable_entry_codepoint out' (Suc i)))"
proof (intro conjI impI allI)
  fix i
  assume a: "parse_bdf lines = Inr (props, glyphs) \<and> distinct (map encoding glyphs) \<and>
    create_fnt_file lines tw th = (st, Some out)"
  assume i: "Suc i < header_glyph_count out"
  from a have p: "parse_bdf lines = Inr (props, glyphs)"
    and d: "distinct (map encoding glyphs)"
    and c: "create_fnt_file lines tw th = (st, Some out)" by simp_all
  from c obtain rendered where
    r: "render_all (valid_glyphs glyphs) (target_width_of props tw)
      (target_height_of props th) (font_ascent_of props) (font_descent_of props) = Inr rendered"
    and w: "write_fnt (target_width_of props tw) (target_height_of props th) rendered
              = (st, Some out)"
    by (auto simp: create_fnt_file_def p rendered_glyphs_def split: sum.splits)
  from write_fnt_layout[OF w] have cnt: "header_glyph_count out = length rendered"
    and ent: "\<forall>k<length rendered. int (fixed_entry_codepoint out k) = fst (rendered ! k)"
    by auto
  have "sorted_wrt (<) (map fst rendered)"
    using render_all_spec[OF r] valid_glyphs_strict[OF d] by simp
  from sorted_wrt_nth_less[OF this, of i "Suc i"]
  have "map fst rendered ! i < map fst rendered ! Suc i"
    using i cnt by simp
  then have "fst (rendered ! i) < fst (rendered ! Suc i)" using i cnt by simp
  then have "int (fixed_entry_codepoint out i) < int (fixed_entry_codepoint out (Suc i))"
    using ent i cnt by simp
  then show "fixed_entry_codepoint out i < fixed_entry_codepoint out (Suc i)" by simp
next
  fix i
  assume c: "create_font_file tables loaded size_px = (Returned_True, Some out')"
  assume i: "Suc i < header_glyph_count out'"
  from c obtain f outlines mw mh where
    l: "render_loop f size_px (get_font_codepoints tables) [] 0 0 = Inr (outlines, mw, mh)"
    and w: "write_font outlines mw mh = (Returned_True, Some out')"
    by (auto simp: create_font_file_def Let_def split: option.splits sum.splits)
  from write_font_layout[OF w] have cnt: "header_glyph_count out' = length outlines"
    and ent: "\<forall>k<length outlines. variable_entry_codepoint out' k = fst (outlines ! k)"
    by auto
  have "sorted_wrt (<) (map fst outlines)"
    using render_loop_sorted[OF l] get_font_codepoints_strict[of tables] by simp
  from sorted_wrt_nth_less[OF this, of i "Suc i"]
  have "map fst outlines ! i < map fst outlines ! Suc i"
    using i cnt by simp
  then show "variable_entry_codepoint out' i < variable_entry_codepoint out' (Suc i)"
    using ent i cnt by simp
qed

text \<open>
  A bitmap source with two glyphs, given out of order, and a font with a space and an
  \<^verbatim>\<open>A\<close>, with the containers the two encoders write for them.
\<close>

definition sample_bdf :: "string list" where
  "sample_bdf = [''FONTBOUNDINGBOX 4 4 0 0'', ''FONT_ASCENT 4'', ''FONT_DESCENT 0'',
     ''STARTCHAR B'', ''ENCODING 66'', ''BBX 4 4 0 0'', ''BITMAP'',
     ''F0'', ''90'', ''90'', ''F0'', ''ENDCHAR'',
     ''STARTCHAR A'', ''ENCODING 65'', ''BBX 1 1 0 0'', ''BITMAP'', ''80'', ''ENDCHAR'']"

definition sample_props :: properties where
  "sample_props = \<lparr>fbb_width = Some 4, fbb_height = Some 4, fbb_x = Some 0, fbb_y = Some 0,
     ascent = Some 4, descent = Some 0, char_count = None\<rparr>"

definition sample_glyphs :: "glyph list" where
  "sample_glyphs =
     [\<lparr>encoding = 66, dwidth = 0, bbx_w = 4, bbx_h = 4, bbx_x = 0, bbx_y = 0,
        bitmap = [240, 144, 144, 240]\<rparr>,
      \<lparr>encoding = 65, dwidth = 0, bbx_w = 1, bbx_h = 1, bbx_x = 0, bbx_y = 0,
        bitmap = [128]\<rparr>]"

definition sample_fnt :: bytes where
  "sample_fnt = [84, 70, 78, 84, 1, 4, 4, 0, 2, 0, 0, 0, 16, 0, 0, 0,
                 65, 0, 28, 0, 0, 0, 66, 0, 30, 0, 0, 0, 0, 8, 249, 159]"

definition sample_tables :: "(bool \<times> nat list) list" where
  "sample_tables = [(True, [65, 32, 10, 66]), (False, [99])]"

definition sample_font :: font where
  "sample_font =
     \<lparr>getbbox = (\<lambda>cp. if cp = 32 then Bbox 0 0 0 0 else if cp = 65 then Bbox 0 0 2 2
                        else Bbox_none),
      ink = (\<lambda>cp x y. if 0 \<le> x \<and> x < 2 \<and> 0 \<le> y \<and> y < 2 \<and> x = y then 255 else 0)\<rparr>"

definition sample_outlines :: "rendered_glyph list" where
  "sample_outlines = [(32, [0], 4, 12), (65, [144], 2, 2)]"

definition sample_tfnt :: bytes where
  "sample_tfnt = [84, 70, 78, 84, 1, 4, 12, 1, 2, 0, 0, 0, 0, 0, 0, 0,
                  32, 0, 0, 0, 36, 0, 0, 0, 4, 12, 65, 0, 0, 0, 37, 0, 0, 0, 2, 2, 0, 144]"

lemma sample_parse: "parse_bdf sample_bdf = Inr (sample_props, sample_glyphs)"
  by code_simp

lemma sample_rendered:
  "rendered_glyphs sample_props sample_glyphs None None = Inr [(65, [0, 8]), (66, [249, 159])]"
  by code_simp

lemma sample_write: "write_fnt 4 4 [(65, [0, 8]), (66, [249, 159])] = (Returned_None, Some sample_fnt)"
  by code_simp

lemma sample_create: "create_fnt_file sample_bdf None None = (Returned_None, Some sample_fnt)"
proof -
  have "target_width_of sample_props None = 4" "target_height_of sample_props None = 4"
    by (simp_all add: target_width_of_def target_height_of_def font_ascent_of_def
          font_descent_of_def sample_props_def)
  then show ?thesis
    by (simp add: create_fnt_file_def sample_parse sample_rendered sample_write)
qed

lemma sample_codepoints: "get_font_codepoints sample_tables = [32, 65, 66]"
  by (simp add: get_font_codepoints_def sample_tables_def)

lemma sample_render_space: "render_glyph sample_font 32 12 = Inr (Some [0], 4, 12)"
  by (simp add: render_glyph_def sample_font_def)

lemma sample_image:
  "draw_text sample_font 65 1 1 4 4 = [[0, 0, 0, 0], [0, 255, 0, 0], [0, 0, 255, 0], [0, 0, 0, 0]]"
  by (simp add: draw_text_def sample_font_def upt_rec)

lemma sample_bbox:
  "image_getbbox [[0, 0, 0, 0], [0, 255, 0, 0], [0, 0, 255, 0], [0, 0, 0, 0]] = Some (1, 1, 3, 3)"
  by code_simp

lemma sample_pack: "pack_bits [Suc 0, 0, 0, Suc 0] = [144]"
  by code_simp

lemma sample_render_A: "render_glyph sample_font 65 12 = Inr (Some [144], 2, 2)"
proof -
  have b: "getbbox sample_font 65 = Bbox 0 0 2 2" by (simp add: sample_font_def)
  show ?thesis
    by (simp add: render_glyph_def b sample_image sample_bbox crop_def sample_pack)
qed

lemma sample_render_B: "render_glyph sample_font 66 12 = Inr (None, 0, 0)"
  by (simp add: render_glyph_def sample_font_def)

lemma sample_loop:
  "render_loop sample_font 12 (get_font_codepoints sample_tables) [] 0 0
     = Inr (sample_outlines, 4, 12)"
  by (simp add: sample_codepoints sample_render_space sample_render_A sample_render_B
        sample_outlines_def)

lemma sample_write_font: "write_font sample_outlines 4 12 = (Returned_True, Some sample_tfnt)"
  by code_simp

lemma sample_create_font:
  "create_font_file sample_tables (Some sample_font) 12 = (Returned_True, Some sample_tfnt)"
  by (simp add: create_font_file_def sample_loop sample_write_font)

text \<open>
  Both sample containers are written, and are contiguous (claim C6).
\<close>

theorem layout_contiguity_witness:
  "contiguous sample_fnt 6 (fixed_entry_offset sample_fnt) [[0, 8], [249, 159]] \<and>
   contiguous sample_tfnt 10 (variable_entry_offset sample_tfnt) [[0], [144]]"
  using layout_contiguity[of sample_bdf sample_props sample_glyphs None None
          "[(65, [0, 8]), (66, [249, 159])]" Returned_None sample_fnt
          sample_font 12 sample_tables sample_outlines 4 12 sample_tfnt]
  by (simp add: sample_parse sample_rendered sample_create sample_loop sample_create_font
        sample_outlines_def glyph_bitmap_def)

lemma sample_distinct: "distinct (map encoding sample_glyphs)"
  by (simp add: sample_glyphs_def)

lemma sample_counts: "header_glyph_count sample_fnt = 2" "header_glyph_count sample_tfnt = 2"
  by (simp_all add: header_glyph_count_def read_uint_def sample_fnt_def sample_tfnt_def)

text \<open>
  In both sample containers the codepoint of entry 0 is below that of entry 1 (claim C7).
\<close>

theorem index_strictly_increasing_witness:
  "fixed_entry_codepoint sample_fnt 0 < fixed_entry_codepoint sample_fnt 1 \<and>
   variable_entry_codepoint sample_tfnt 0 < variable_entry_codepoint sample_tfnt 1"
  using index_strictly_increasing[of sample_bdf sample_props sample_glyphs None None
          Returned_None sample_fnt sample_tables "Some sample_font" 12 sample_tfnt]
  by (simp add: sample_parse sample_distinct sample_create sample_create_font sample_counts)

section \<open>Verification: dimensions packed as single bytes\<close>

text \<open>
  Width and height of index entry \<open>k\<close> of the variable format, as the firmware reads them.
\<close>

definition variable_entry_width :: "bytes \<Rightarrow> nat \<Rightarrow> nat" where
  "variable_entry_width out k = read_uint out (16 + 10 * k + 8) 1"

definition variable_entry_height :: "bytes \<Rightarrow> nat \<Rightarrow> nat" where
  "variable_entry_height out k = read_uint out (16 + 10 * k + 9) 1"

text \<open>
  What the rendering loop keeps true of the glyphs collected so far and the two maxima.
\<close>

definition loop_inv :: "rendered_glyph list \<Rightarrow> int \<Rightarrow> int \<Rightarrow> bool" where
  "loop_inv gs mw mh =
     ((\<forall>g\<in>set gs. fst g < 0x110000 \<and> 0 < glyph_width g \<and> glyph_width g \<le> mw \<and>
                   0 < glyph_height g \<and> glyph_height g \<le> mh) \<and>
      (mw = 0 \<or> mw \<in> glyph_width ` set gs) \<and>
      (mh = 0 \<or> mh \<in> glyph_height ` set gs))"

lemma render_glyph_codepoint: "render_glyph f cp s = Inr r \<Longrightarrow> cp < 0x110000"
  by (simp add: render_glyph_def split: if_splits)

lemma loop_inv_snoc:
  assumes "loop_inv gs mw mh" "cp < 0x110000" "0 < w" "0 < h"
  shows "loop_inv (gs @ [(cp, b, w, h)]) (max mw w) (max mh h)"
proof -
  have g: "glyph_width (cp, b, w, h) = w" "glyph_height (cp, b, w, h) = h"
    by (simp_all add: glyph_width_def glyph_height_def)
  have all: "\<forall>g\<in>set gs. fst g < 0x110000 \<and> 0 < glyph_width g \<and> glyph_width g \<le> mw \<and>
                   0 < glyph_height g \<and> glyph_height g \<le> mh"
    and mw: "mw = 0 \<or> mw \<in> glyph_width ` set gs"
    and mh: "mh = 0 \<or> mh \<in> glyph_height ` set gs"
    using assms(1) by (simp_all add: loop_inv_def)
  have 1: "\<forall>g\<in>set (gs @ [(cp, b, w, h)]). fst g < 0x110000 \<and> 0 < glyph_width g \<and>
             glyph_width g \<le> max mw w \<and> 0 < glyph_height g \<and> glyph_height g \<le> max mh h"
    using all assms(2-4) g by auto
  have 2: "max mw w = 0 \<or> max mw w \<in> glyph_width ` set (gs @ [(cp, b, w, h)])"
    using mw assms(3) g by (auto simp: max_def)
  have 3: "max mh h = 0 \<or> max mh h \<in> glyph_height ` set (gs @ [(cp, b, w, h)])"
    using mh assms(4) g by (auto simp: max_def)
  show ?thesis unfolding loop_inv_def using 1 2 3 by blast
qed

lemma render_loop_inv:
  "render_loop f s cps gs mw mh = Inr (gs', mw', mh') \<Longrightarrow> loop_inv gs mw mh \<Longrightarrow>
     loop_inv gs' mw' mh'"
proof (induction cps arbitrary: gs mw mh)
  case Nil
  then show ?case by simp
next
  case (Cons cp cps)
  from Cons.prems(1) obtain bm w h where r: "render_glyph f cp s = Inr (bm, w, h)"
    by (auto split: sum.splits)
  have cp: "cp < 0x110000" using render_glyph_codepoint[OF r] .
  show ?case
  proof (cases "\<exists>bits. bm = Some bits \<and> bits \<noteq> [] \<and> w > 0 \<and> h > 0")
    case True
    then obtain bits where b: "bm = Some bits" "bits \<noteq> []" "w > 0" "h > 0" by blast
    have "render_loop f s cps (gs @ [(cp, bits, w, h)]) (max mw w) (max mh h) = Inr (gs', mw', mh')"
      using Cons.prems(1) r b by simp
    from Cons.IH[OF this loop_inv_snoc[OF Cons.prems(2) cp b(3,4)]] show ?thesis .
  next
    case False
    then have "render_loop f s cps gs mw mh = Inr (gs', mw', mh')"
      using Cons.prems(1) r by (auto split: option.splits if_splits)
    from Cons.IH[OF this Cons.prems(2)] show ?thesis .
  qed
qed

lemma offset_at_mono: "k \<le> j \<Longrightarrow> offset_at start glyphs k \<le> offset_at start glyphs j"
proof -
  assume "k \<le> j"
  then obtain d where j: "j = k + d" by (auto simp: le_iff_add)
  have "take (k + d) (map glyph_bitmap glyphs)
          = take k (map glyph_bitmap glyphs) @ take d (drop k (map glyph_bitmap glyphs))"
    by (rule take_add)
  then show ?thesis by (simp add: offset_at_def j)
qed

lemma pack_header_total:
  assumes "0 \<le> a" "a \<le> 255" "0 \<le> b" "b \<le> 255" "0 \<le> cnt" "cnt < 256 ^ 4"
  shows "\<exists>h. pack_header FONT_VERSION a b 1 cnt 0 = Inr h"
  using assms by (simp add: pack_header_def pack_uint_def FONT_VERSION_def)

lemma pack_header_raises:
  assumes "255 < a \<or> 255 < b"
  shows "pack_header FONT_VERSION a b 1 cnt 0 = Inl StructError"
  using assms by (auto simp: pack_header_def pack_uint_def FONT_VERSION_def)

lemma write_font_succeeds:
  assumes "glyphs \<noteq> []" "0 \<le> mw" "mw \<le> 255" "0 \<le> mh" "mh \<le> 255"
    and "int (length glyphs) < 256 ^ 4"
    and "\<forall>k<length glyphs. entry_fits (16 + int (length glyphs) * 10) glyphs k"
  shows "\<exists>out. write_font glyphs mw mh = (Returned_True, Some out)"
proof -
  from pack_header_total[OF assms(2-5) _ assms(6)] obtain h where
    h: "pack_header FONT_VERSION mw mh 1 (int (length glyphs)) 0 = Inr h" by auto
  from variable_index_total[OF assms(7), of h] obtain body where
    b: "variable_index (16 + int (length glyphs) * 10) glyphs h = Inr body" by blast
  show ?thesis using assms(1) h b by (simp add: write_font_def Let_def)
qed

lemma write_font_header_raises:
  assumes "glyphs \<noteq> []" "255 < mw \<or> 255 < mh"
  shows "write_font glyphs mw mh = (Raised StructError, Some [])"
  using assms(1) pack_header_raises[OF assms(2)] by (simp add: write_font_def Let_def)

lemma write_font_index_raises:
  assumes "glyphs \<noteq> []" "0 \<le> mw" "mw \<le> 255" "0 \<le> mh" "mh \<le> 255"
    and "int (length glyphs) < 256 ^ 4"
    and "k < length glyphs" "\<not> entry_fits (16 + int (length glyphs) * 10) glyphs k"
  shows "\<exists>written. write_font glyphs mw mh = (Raised StructError, Some written)"
proof -
  from pack_header_total[OF assms(2-5) _ assms(6)] obtain h where
    h: "pack_header FONT_VERSION mw mh 1 (int (length glyphs)) 0 = Inr h" by auto
  from variable_index_raises[OF assms(7,8), of h] obtain written where
    b: "variable_index (16 + int (length glyphs) * 10) glyphs h = Inl (StructError, written)"
    by blast
  show ?thesis using assms(1) h b by (simp add: write_font_def Let_def)
qed

lemma write_font_dims:
  assumes "write_font glyphs mw mh = (Returned_True, Some out)" "k < length glyphs"
  shows "int (variable_entry_width out k) = glyph_width (glyphs ! k) \<and>
         int (variable_entry_height out k) = glyph_height (glyphs ! k)"
proof -
  define n where "n = length glyphs"
  have ne: "glyphs \<noteq> []" using assms by (auto simp: write_font_def)
  from assms(1) ne obtain header body where
    h: "pack_header FONT_VERSION mw mh 1 (int n) 0 = Inr header"
    and v: "variable_index (16 + int n * 10) glyphs header = Inr body"
    and out: "out = body @ concat (map (\<lambda>(cp, bm, width, height). bm) glyphs)"
    by (auto simp: write_font_def Let_def n_def split: sum.splits prod.splits)
  from pack_header_Inr[OF h] have hl: "length header = 16" by auto
  from variable_index_spec[OF v] obtain es where
    es: "body = header @ concat es" "length es = n"
        "\<forall>k<n. es ! k = le_bytes 4 (fst (glyphs ! k)) @
                      le_bytes 4 (nat (offset_at (16 + int n * 10) glyphs k)) @
                      le_bytes 1 (nat (glyph_width (glyphs ! k))) @
                      le_bytes 1 (nat (glyph_height (glyphs ! k))) \<and>
             entry_fits (16 + int n * 10) glyphs k"
    unfolding n_def by auto
  have el: "\<forall>e\<in>set es. length e = 10"
  proof
    fix e assume "e \<in> set es"
    then obtain k where "k < n" "e = es ! k" using es(2) by (auto simp: in_set_conv_nth)
    then show "length e = 10" using es(3) by (simp add: length_le_bytes)
  qed
  have o: "out = header @ concat es @ concat (map (\<lambda>(cp, bm, width, height). bm) glyphs)"
    using out es(1) by simp
  have kk: "k < length es" using assms(2) es(2) n_def by simp
  from es(3) assms(2) have e: "es ! k = le_bytes 4 (fst (glyphs ! k)) @
                      le_bytes 4 (nat (offset_at (16 + int n * 10) glyphs k)) @
                      le_bytes 1 (nat (glyph_width (glyphs ! k))) @
                      le_bytes 1 (nat (glyph_height (glyphs ! k)))"
    and fits: "entry_fits (16 + int n * 10) glyphs k" unfolding n_def by auto
  from fits have r: "0 \<le> glyph_width (glyphs ! k)" "glyph_width (glyphs ! k) < 256 ^ 1"
    "0 \<le> glyph_height (glyphs ! k)" "glyph_height (glyphs ! k) < 256 ^ 1"
    by (simp_all add: entry_fits_def)
  have "variable_entry_width out k = le_value (take 1 (drop 8 (es ! k)))"
    unfolding variable_entry_width_def o
    using take_drop_append_chunks[OF el kk _ hl, of 8 1] by simp
  then have w: "variable_entry_width out k = nat (glyph_width (glyphs ! k))"
    using read_le_bytes[OF r(1,2)] by (simp add: e length_le_bytes)
  have "variable_entry_height out k = le_value (take 1 (drop 9 (es ! k)))"
    unfolding variable_entry_height_def o
    using take_drop_append_chunks[OF el kk _ hl, of 9 1] by simp
  then have "variable_entry_height out k = nat (glyph_height (glyphs ! k))"
    using read_le_bytes[OF r(3,4)] by (simp add: e length_le_bytes)
  then show ?thesis using w r by simp
qed

text \<open>
  Claim C10, amended. Width and height of a glyph are packed as one unsigned byte each, like
  the two maxima in the header. When at least one glyph was rendered, every rendered width
  and height is at most 255 and the last blob offset is below \<open>2^32\<close> (the offset is a
  32-bit field), the encoder succeeds and the index carries every width and height
  unchanged. When a rendered width or height exceeds 255, the encoder raises
  \<^verbatim>\<open>struct.error\<close> on the header, with the output file already opened and still empty: no
  truncated dimension is written.
\<close>

theorem byte_dimensions:
  assumes "render_loop f size_px (get_font_codepoints tables) [] 0 0 = Inr (outlines, mw, mh)"
  shows "(outlines \<noteq> [] \<and>
          (\<forall>g\<in>set outlines. glyph_width g \<le> 255 \<and> glyph_height g \<le> 255) \<and>
          offset_at (16 + int (length outlines) * 10) outlines (length outlines - 1) < 2 ^ 32
            \<longrightarrow> (\<exists>out. create_font_file tables (Some f) size_px = (Returned_True, Some out) \<and>
                   (\<forall>k<length outlines.
                      int (variable_entry_width out k) = glyph_width (outlines ! k) \<and>
                      int (variable_entry_height out k) = glyph_height (outlines ! k)))) \<and>
         ((\<exists>g\<in>set outlines. 255 < glyph_width g \<or> 255 < glyph_height g)
            \<longrightarrow> create_font_file tables (Some f) size_px = (Raised StructError, Some []))"
proof (intro conjI impI)
  have run: "create_font_file tables (Some f) size_px = write_font outlines mw mh"
    by (simp add: create_font_file_def assms)
  have inv: "loop_inv outlines mw mh"
    using render_loop_inv[OF assms] by (simp add: loop_inv_def)
  then have all: "\<forall>g\<in>set outlines. fst g < 0x110000 \<and> 0 < glyph_width g \<and> glyph_width g \<le> mw \<and>
                   0 < glyph_height g \<and> glyph_height g \<le> mh"
    and mw: "mw = 0 \<or> mw \<in> glyph_width ` set outlines"
    and mh: "mh = 0 \<or> mh \<in> glyph_height ` set outlines"
    by (simp_all add: loop_inv_def)
  {
    assume a: "outlines \<noteq> [] \<and>
          (\<forall>g\<in>set outlines. glyph_width g \<le> 255 \<and> glyph_height g \<le> 255) \<and>
          offset_at (16 + int (length outlines) * 10) outlines (length outlines - 1) < 2 ^ 32"
    define n where "n = length outlines"
    have ne: "outlines \<noteq> []" and small: "\<forall>g\<in>set outlines. glyph_width g \<le> 255 \<and> glyph_height g \<le> 255"
      and last: "offset_at (16 + int n * 10) outlines (n - 1) < 2 ^ 32"
      using a by (simp_all add: n_def)
    have npos: "0 < n" using ne by (simp add: n_def)
    have m: "0 \<le> mw" "mw \<le> 255" "0 \<le> mh" "mh \<le> 255"
      using mw mh small all by auto
    have "16 + int n * 10 \<le> offset_at (16 + int n * 10) outlines (n - 1)"
      by (simp add: offset_at_def)
    then have cnt: "int n < 256 ^ 4" using last by simp
    have fits: "\<forall>k<n. entry_fits (16 + int n * 10) outlines k"
    proof (intro allI impI)
      fix k assume k: "k < n"
      then have g: "outlines ! k \<in> set outlines" by (simp add: n_def)
      have "offset_at (16 + int n * 10) outlines k \<le> offset_at (16 + int n * 10) outlines (n - 1)"
        using k by (intro offset_at_mono) simp
      then have o: "offset_at (16 + int n * 10) outlines k < 256 ^ 4" using last by simp
      have o0: "0 \<le> offset_at (16 + int n * 10) outlines k" by (simp add: offset_at_def)
      have "fst (outlines ! k) < 0x110000" using all g by blast
      then have c: "int (fst (outlines ! k)) < 256 ^ 4" by simp
      show "entry_fits (16 + int n * 10) outlines k"
        unfolding entry_fits_def using c o o0 all small g by auto
    qed
    from write_font_succeeds[OF ne m cnt[unfolded n_def] fits[unfolded n_def]]
    obtain out where out: "write_font outlines mw mh = (Returned_True, Some out)" by blast
    have "\<forall>k<length outlines.
            int (variable_entry_width out k) = glyph_width (outlines ! k) \<and>
            int (variable_entry_height out k) = glyph_height (outlines ! k)"
      using write_font_dims[OF out] by blast
    with out run show "\<exists>out. create_font_file tables (Some f) size_px = (Returned_True, Some out) \<and>
                   (\<forall>k<length outlines.
                      int (variable_entry_width out k) = glyph_width (outlines ! k) \<and>
                      int (variable_entry_height out k) = glyph_height (outlines ! k))"
      by simp
  }
  {
    assume "\<exists>g\<in>set outlines. 255 < glyph_width g \<or> 255 < glyph_height g"
    then obtain g where g: "g \<in> set outlines" "255 < glyph_width g \<or> 255 < glyph_height g"
      by blast
    then have ne: "outlines \<noteq> []" by auto
    have "255 < mw \<or> 255 < mh" using all g by force
    from write_font_header_raises[OF ne this] run
    show "create_font_file tables (Some f) size_px = (Raised StructError, Some [])" by simp
  }
qed

text \<open>
  The sample font at size 768: the space is 256 wide.
\<close>

lemma sample_loop_768:
  "render_loop sample_font 768 (get_font_codepoints sample_tables) [] 0 0
     = Inr ([(32, [0], 256, 768), (65, [144], 2, 2)], 256, 768)"
proof -
  have s: "render_glyph sample_font 32 768 = Inr (Some [0], 256, 768)"
    by (simp add: render_glyph_def sample_font_def)
  have b: "getbbox sample_font 65 = Bbox 0 0 2 2" by (simp add: sample_font_def)
  have a: "render_glyph sample_font 65 768 = Inr (Some [144], 2, 2)"
    by (simp add: render_glyph_def b sample_image sample_bbox crop_def sample_pack)
  have n: "render_glyph sample_font 66 768 = Inr (None, 0, 0)"
    by (simp add: render_glyph_def sample_font_def)
  show ?thesis by (simp add: sample_codepoints s a n)
qed

text \<open>
  The sample font at size 12 is written with its dimensions; at size 768 the encoder raises.
\<close>

theorem byte_dimensions_witness:
  "create_font_file sample_tables (Some sample_font) 12 = (Returned_True, Some sample_tfnt) \<and>
   variable_entry_width sample_tfnt 0 = 4 \<and> variable_entry_height sample_tfnt 0 = 12 \<and>
   variable_entry_width sample_tfnt 1 = 2 \<and> variable_entry_height sample_tfnt 1 = 2 \<and>
   glyph_width (32, [0], 256, 768) = 256 \<and>
   create_font_file sample_tables (Some sample_font) 768 = (Raised StructError, Some [])"
proof -
  have o: "offset_at (16 + int (length sample_outlines) * 10) sample_outlines
             (length sample_outlines - 1) < 2 ^ 32"
    by (simp add: offset_at_def sample_outlines_def glyph_bitmap_def)
  have d: "\<forall>g\<in>set sample_outlines. glyph_width g \<le> 255 \<and> glyph_height g \<le> 255"
    by (simp add: sample_outlines_def glyph_width_def glyph_height_def)
  have n: "sample_outlines \<noteq> []" by (simp add: sample_outlines_def)
  have r: "variable_entry_width sample_tfnt 0 = 4 \<and> variable_entry_height sample_tfnt 0 = 12 \<and>
   variable_entry_width sample_tfnt 1 = 2 \<and> variable_entry_height sample_tfnt 1 = 2"
    by (simp add: variable_entry_width_def variable_entry_height_def read_uint_def sample_tfnt_def)
  have w: "glyph_width (32, [0], 256, 768) = 256" by (simp add: glyph_width_def)
  have big: "\<exists>g\<in>set [(32, [0], 256, 768), (65, [144], 2, 2)].
               255 < glyph_width g \<or> 255 < glyph_height g"
    by (simp add: glyph_width_def)
  have "create_font_file sample_tables (Some sample_font) 768 = (Raised StructError, Some [])"
    using byte_dimensions[OF sample_loop_768] big by blast
  then show ?thesis
    using byte_dimensions[OF sample_loop] o d n r w sample_create_font by simp
qed

text \<open>
  A font that maps 600000 codepoints to one glyph whose ink fills 255 by 255 pixels: every
  rendered glyph is 255 wide and 255 high, and its bitmap has 8129 bytes.
\<close>

definition big_font :: font where
  "big_font = \<lparr>getbbox = (\<lambda>cp. Bbox 0 0 253 253), ink = (\<lambda>cp x y. 255)\<rparr>"

definition big_tables :: "(bool \<times> nat list) list" where
  "big_tables = [(True, [32..<600032])]"

definition big_bitmap :: bytes where
  "big_bitmap = pack_bits (concat (replicate 255 (replicate 255 1)))"

lemma draw_text_constant:
  assumes "\<And>x y. ink f cp x y = v"
  shows "draw_text f cp ox oy W H = replicate H (replicate W (min 255 v))"
  by (simp add: draw_text_def assms map_replicate_const)

lemma image_getbbox_full:
  assumes "0 < W" "0 < H" "v \<noteq> 0"
  shows "image_getbbox (replicate H (replicate W v)) = Some (0, 0, W, H)"
proof -
  define img where "img = replicate H (replicate W v)"
  have ys: "filter (\<lambda>y. \<exists>u\<in>set (img ! y). u \<noteq> 0) [0..<length img] = [0..<H]"
  proof -
    have "\<forall>y\<in>set [0..<H]. \<exists>u\<in>set (img ! y). u \<noteq> 0"
      using assms by (simp add: img_def)
    then have "filter (\<lambda>y. \<exists>u\<in>set (img ! y). u \<noteq> 0) [0..<H] = [0..<H]"
      by (rule filter_True)
    then show ?thesis by (simp add: img_def)
  qed
  have row: "filter (\<lambda>x. replicate W v ! x \<noteq> 0) [0..<length (replicate W v)] = [0..<W]"
  proof -
    have "\<forall>x\<in>set [0..<W]. replicate W v ! x \<noteq> 0" using assms by simp
    then have "filter (\<lambda>x. replicate W v ! x \<noteq> 0) [0..<W] = [0..<W]" by (rule filter_True)
    then show ?thesis by simp
  qed
  have xs: "concat (map (\<lambda>row. filter (\<lambda>x. row ! x \<noteq> 0) [0..<length row]) img)
              = concat (replicate H [0..<W])"
    unfolding img_def by (simp only: map_replicate row)
  have sy: "set [0..<H] = {0..<H}" by simp
  have sx: "set (concat (replicate H [0..<W])) = {0..<W}" using assms(2) by auto
  have ne: "[0..<H] \<noteq> []" "concat (replicate H [0..<W]) \<noteq> []"
    using assms sx by auto
  have minH: "Min {0..<H} = 0" using assms(2) by (intro Min_eqI) auto
  have minW: "Min {0..<W} = 0" using assms(1) by (intro Min_eqI) auto
  have maxH: "Suc (Max {0..<H}) = H"
  proof -
    have "Max {0..<H} = H - 1" using assms(2) by (intro Max_eqI) auto
    then show ?thesis using assms(2) by simp
  qed
  have maxW: "Suc (Max {0..<W}) = W"
  proof -
    have "Max {0..<W} = W - 1" using assms(1) by (intro Max_eqI) auto
    then show ?thesis using assms(1) by simp
  qed
  have "image_getbbox img = Some (0, 0, W, H)"
    unfolding image_getbbox_def Let_def ys xs sy sx
    using ne minH minW maxH maxW by simp
  then show ?thesis by (simp add: img_def)
qed

lemma crop_full: "crop (replicate H (replicate W v)) (0, 0, W, H) = replicate H (replicate W v)"
  by (simp add: crop_def)

lemma big_render:
  assumes "cp < 0x110000"
  shows "render_glyph big_font cp s = Inr (Some big_bitmap, 255, 255)"
proof -
  have b: "getbbox big_font cp = Bbox 0 0 253 253" by (simp add: big_font_def)
  have i: "\<And>x y. ink big_font cp x y = 255" by (simp add: big_font_def)
  have d: "draw_text big_font cp (1 - 0) (1 - 0) 255 255 = replicate 255 (replicate 255 255)"
    using draw_text_constant[of big_font cp 255 "1 - 0" "1 - 0" 255 255, OF i] by simp
  have g: "image_getbbox (replicate 255 (replicate 255 (255::nat))) = Some (0, 0, 255, 255)"
    by (rule image_getbbox_full) simp_all
  have c: "crop (replicate 255 (replicate 255 (255::nat))) (0, 0, 255, 255)
             = replicate 255 (replicate 255 255)"
    by (rule crop_full)
  have n: "nat (253 - 0 + 2) = 255" by simp
  show ?thesis
    using assms
    by (simp only: render_glyph_def b bbox_result.case Let_def n d g c option.case prod.case
          big_bitmap_def map_replicate)
       simp
qed

lemma big_bitmap_length: "length big_bitmap = 8129"
proof -
  have "\<forall>row\<in>set (replicate 255 (replicate 255 (1::nat))). length row = 255" by simp
  from concat_uniform_length[OF this]
  have "length (concat (replicate 255 (replicate 255 (1::nat)))) = 255 * 255" by simp
  then show ?thesis using pack_bits_spec[of "concat (replicate 255 (replicate 255 1))"]
    by (simp add: big_bitmap_def)
qed

lemma render_loop_uniform:
  assumes "\<forall>cp\<in>set cps. render_glyph f cp s = Inr (Some B, w, h)" "B \<noteq> []" "0 < w" "0 < h"
  shows "render_loop f s cps gs mw mh =
           Inr (gs @ map (\<lambda>cp. (cp, B, w, h)) cps,
                if cps = [] then mw else max mw w, if cps = [] then mh else max mh h)"
  using assms(1)
proof (induction cps arbitrary: gs mw mh)
  case Nil
  then show ?case by simp
next
  case (Cons cp cps)
  have r: "render_glyph f cp s = Inr (Some B, w, h)" using Cons.prems by simp
  have rest: "\<forall>cp\<in>set cps. render_glyph f cp s = Inr (Some B, w, h)" using Cons.prems by simp
  show ?case
    using assms(2-4) by (simp add: r Cons.IH[OF rest])
qed

lemma get_font_codepoints_single:
  assumes "distinct xs" "sorted xs" "\<forall>x\<in>set xs. 32 \<le> x"
  shows "get_font_codepoints [(True, xs)] = xs"
  using assms by (simp add: get_font_codepoints_def Let_def sorted_sort_id)

lemma offset_at_uniform:
  assumes "k \<le> length cps"
  shows "offset_at start (map (\<lambda>cp. (cp, B, w, h)) cps) k = start + int (length B * k)"
proof -
  have "\<forall>e\<in>set (map glyph_bitmap (map (\<lambda>cp. (cp, B, w, h)) cps)). length e = length B"
    by (simp add: glyph_bitmap_def)
  from concat_take_length[OF this, of k] assms show ?thesis
    by (simp add: offset_at_def)
qed

lemma big_codepoints:
  "distinct [32..<600032]" "sorted [32..<600032]" "\<forall>x\<in>set [32..<600032]. 32 \<le> x"
  "\<forall>x\<in>set [32..<600032]. x < 0x110000" "length [32..<600032] = 600000"
proof -
  show "distinct [32..<600032]" by (rule distinct_upt)
  show "sorted [32..<600032]" by (rule sorted_upt)
  show "\<forall>x\<in>set [32..<600032]. 32 \<le> x" by (simp only: set_upt) auto
  have "(600032::nat) \<le> 0x110000" by simp
  then show "\<forall>x\<in>set [32..<600032]. x < 0x110000"
    by (simp only: set_upt) auto
  have "(600032::nat) - 32 = 600000" by simp
  then show "length [32..<600032] = 600000" by (simp only: length_upt)
qed

lemma big_run:
  "\<exists>written. create_font_file big_tables (Some big_font) 255 = (Raised StructError, Some written)"
proof -
  define cps :: "nat list" where "cps = [32..<600032]"
  define glyphs where "glyphs = map (\<lambda>cp. (cp, big_bitmap, 255::int, 255::int)) cps"
  have cps: "distinct cps" "sorted cps" "\<forall>x\<in>set cps. 32 \<le> x" "\<forall>x\<in>set cps. x < 0x110000"
    "length cps = 600000"
    unfolding cps_def by (rule big_codepoints)+
  have ne: "cps \<noteq> []" using cps(5) by auto
  have cp: "get_font_codepoints big_tables = cps"
    unfolding big_tables_def cps_def[symmetric] by (rule get_font_codepoints_single[OF cps(1-3)])
  have B: "big_bitmap \<noteq> []" using big_bitmap_length by auto
  have "\<forall>cp\<in>set cps. render_glyph big_font cp 255 = Inr (Some big_bitmap, 255, 255)"
    using cps(4) big_render by blast
  from render_loop_uniform[OF this B, of "[]" 0 0]
  have loop: "render_loop big_font 255 cps [] 0 0 = Inr (glyphs, 255, 255)"
    using ne by (simp add: glyphs_def)
  have run: "create_font_file big_tables (Some big_font) 255 = write_font glyphs 255 255"
    by (simp add: create_font_file_def cp loop)
  have n: "length glyphs = 600000" using cps(5) by (simp add: glyphs_def)
  have gne: "glyphs \<noteq> []" using n by auto
  have "offset_at (16 + int (length glyphs) * 10) glyphs 599999
          = 16 + int (length glyphs) * 10 + int (length big_bitmap * 599999)"
    unfolding glyphs_def by (rule offset_at_uniform) (simp add: cps(5))
  then have "\<not> offset_at (16 + int (length glyphs) * 10) glyphs 599999 < 256 ^ 4"
    by (simp add: n big_bitmap_length)
  then have nf: "\<not> entry_fits (16 + int (length glyphs) * 10) glyphs 599999"
    by (simp add: entry_fits_def)
  have "\<exists>written. write_font glyphs 255 255 = (Raised StructError, Some written)"
    by (rule write_font_index_raises[OF gne _ _ _ _ _ _ nf]) (simp_all add: n)
  then show ?thesis using run by simp
qed

text \<open>
  Claim C10, as stated, fails at both ends of "every glyph set with dimensions at most 255":
  with no glyph at all the encoder returns \<^verbatim>\<open>False\<close> and writes nothing, and with 600000
  glyphs of 255 by 255 pixels the blob offset of the last entries no longer fits the 32-bit
  field, so \<^verbatim>\<open>struct.pack\<close> raises in the index loop.
\<close>

theorem write_succeeds_counterexample:
  "create_font_file [] (Some sample_font) 12 = (Returned_False, None) \<and>
   render_glyph big_font 32 255 = Inr (Some big_bitmap, 255, 255) \<and>
   fst (create_font_file big_tables (Some big_font) 255) = Raised StructError"
proof -
  have 1: "create_font_file [] (Some sample_font) 12 = (Returned_False, None)"
    by (simp add: create_font_file_def get_font_codepoints_def write_font_def)
  have 2: "render_glyph big_font 32 255 = Inr (Some big_bitmap, 255, 255)"
    by (rule big_render) simp
  from big_run obtain written where
    "create_font_file big_tables (Some big_font) 255 = (Raised StructError, Some written)" by blast
  then have 3: "fst (create_font_file big_tables (Some big_font) 255) = Raised StructError"
    by simp
  show ?thesis using 1 2 3 by blast
qed

section \<open>Verification: a glyph block without its bitmap marker\<close>

text \<open>
  The effect of one line of a glyph block that is not the \<^verbatim>\<open>BITMAP\<close> marker (lines 80 to
  89), and of a run of such lines.
\<close>

definition glyph_field :: "string \<Rightarrow> block \<Rightarrow> error + block" where
  "glyph_field gline blk =
     (if startswith gline ''ENCODING '' then
        (case int_field (split gline) 1 of
           Inl e \<Rightarrow> Inl e
         | Inr v \<Rightarrow> Inr (blk\<lparr>blk_encoding := Some v\<rparr>))
      else if startswith gline ''DWIDTH '' then
        (case int_field (split gline) 1 of
           Inl e \<Rightarrow> Inl e
         | Inr v \<Rightarrow> Inr (blk\<lparr>blk_dwidth := v\<rparr>))
      else if startswith gline ''BBX '' then
        (case int_field (split gline) 1 of Inl e \<Rightarrow> Inl e | Inr w \<Rightarrow>
        (case int_field (split gline) 2 of Inl e \<Rightarrow> Inl e | Inr h \<Rightarrow>
        (case int_field (split gline) 3 of Inl e \<Rightarrow> Inl e | Inr x \<Rightarrow>
        (case int_field (split gline) 4 of Inl e \<Rightarrow> Inl e | Inr y \<Rightarrow>
           Inr (blk\<lparr>blk_bbx_w := w, blk_bbx_h := h, blk_bbx_x := x, blk_bbx_y := y\<rparr>)))))
      else Inr blk)"

fun glyph_fields :: "string list \<Rightarrow> block \<Rightarrow> error + block" where
  "glyph_fields [] blk = Inr blk"
| "glyph_fields (l # ls) blk =
     (case glyph_field (strip l) blk of Inl e \<Rightarrow> Inl e | Inr blk' \<Rightarrow> glyph_fields ls blk')"

lemma scan_glyph_step:
  assumes "strip l \<noteq> ''BITMAP''"
  shows "scan_glyph (l # ls) blk =
           (case glyph_field (strip l) blk of Inl e \<Rightarrow> Inl e | Inr blk' \<Rightarrow> scan_glyph ls blk')"
  using assms by (simp add: glyph_field_def Let_def split: sum.splits)

lemma scan_glyph_fields:
  assumes "\<forall>l\<in>set ls. strip l \<noteq> ''BITMAP''"
  shows "scan_glyph (ls @ tail) blk =
           (case glyph_fields ls blk of Inl e \<Rightarrow> Inl e | Inr blk' \<Rightarrow> scan_glyph tail blk')"
  using assms
proof (induction ls arbitrary: blk)
  case Nil
  then show ?case by simp
next
  case (Cons l ls)
  have l: "strip l \<noteq> ''BITMAP''" and ls: "\<forall>l\<in>set ls. strip l \<noteq> ''BITMAP''"
    using Cons.prems by simp_all
  show ?case
    using scan_glyph_step[OF l, of "ls @ tail" blk] Cons.IH[OF ls]
    by (simp split: sum.splits)
qed

lemma scan_single:
  assumes "strip l \<noteq> ''BITMAP''"
  shows "isl (scan_glyph [l] blk) = isl (glyph_field (strip l) blk)"
  using scan_glyph_step[OF assms, of "[]" blk] by (simp split: sum.splits)

text \<open>Whether a line raises does not depend on the block scanned so far.\<close>

lemma glyph_field_raises: "isl (glyph_field g blk) = isl (glyph_field g blk')"
  by (simp add: glyph_field_def split: sum.splits)

lemma startswith_hd: "startswith g (c # p) \<Longrightarrow> g \<noteq> [] \<and> hd g = c"
  by (cases g) (auto simp: startswith_def)

lemma startswith_differ:
  "startswith g (c # p) \<Longrightarrow> c \<noteq> d \<Longrightarrow> \<not> startswith g (d # q)"
  using startswith_hd by metis

lemma glyph_field_pair:
  assumes "glyph_field g b1 = Inr c1" "glyph_field g b2 = Inr c2"
  shows "blk_rows c1 = blk_rows b1 \<and> blk_rows c2 = blk_rows b2 \<and>
    (if startswith g ''ENCODING '' then blk_encoding c1 = blk_encoding c2
     else blk_encoding c1 = blk_encoding b1 \<and> blk_encoding c2 = blk_encoding b2) \<and>
    (if startswith g ''DWIDTH '' then blk_dwidth c1 = blk_dwidth c2
     else blk_dwidth c1 = blk_dwidth b1 \<and> blk_dwidth c2 = blk_dwidth b2) \<and>
    (if startswith g ''BBX ''
     then blk_bbx_w c1 = blk_bbx_w c2 \<and> blk_bbx_h c1 = blk_bbx_h c2 \<and>
          blk_bbx_x c1 = blk_bbx_x c2 \<and> blk_bbx_y c1 = blk_bbx_y c2
     else blk_bbx_w c1 = blk_bbx_w b1 \<and> blk_bbx_h c1 = blk_bbx_h b1 \<and>
          blk_bbx_x c1 = blk_bbx_x b1 \<and> blk_bbx_y c1 = blk_bbx_y b1 \<and>
          blk_bbx_w c2 = blk_bbx_w b2 \<and> blk_bbx_h c2 = blk_bbx_h b2 \<and>
          blk_bbx_x c2 = blk_bbx_x b2 \<and> blk_bbx_y c2 = blk_bbx_y b2)"
proof -
  consider (E) "startswith g ''ENCODING ''" | (D) "startswith g ''DWIDTH ''"
    | (X) "startswith g ''BBX ''"
    | (N) "\<not> startswith g ''ENCODING ''" "\<not> startswith g ''DWIDTH ''" "\<not> startswith g ''BBX ''"
    by blast
  then show ?thesis
  proof cases
    case E
    then have n: "\<not> startswith g ''DWIDTH ''" "\<not> startswith g ''BBX ''"
      by (auto dest: startswith_differ)
    show ?thesis using assms E n by (auto simp: glyph_field_def split: sum.splits)
  next
    case D
    then have n: "\<not> startswith g ''ENCODING ''" "\<not> startswith g ''BBX ''"
      by (auto dest: startswith_differ)
    show ?thesis using assms D n by (auto simp: glyph_field_def split: sum.splits)
  next
    case X
    then have n: "\<not> startswith g ''ENCODING ''" "\<not> startswith g ''DWIDTH ''"
      by (auto dest: startswith_differ)
    show ?thesis using assms X n by (auto simp: glyph_field_def split: sum.splits)
  next
    case N
    then show ?thesis using assms by (simp add: glyph_field_def)
  qed
qed

lemma glyph_fields_agree:
  assumes "\<forall>l\<in>set hdr. \<not> isl (glyph_field (strip l) new_block)"
  shows "\<exists>c1 c2. glyph_fields hdr b1 = Inr c1 \<and> glyph_fields hdr b2 = Inr c2 \<and>
    blk_rows c1 = blk_rows b1 \<and> blk_rows c2 = blk_rows b2 \<and>
    (if \<exists>l\<in>set hdr. startswith (strip l) ''ENCODING '' then blk_encoding c1 = blk_encoding c2
     else blk_encoding c1 = blk_encoding b1 \<and> blk_encoding c2 = blk_encoding b2) \<and>
    (if \<exists>l\<in>set hdr. startswith (strip l) ''DWIDTH '' then blk_dwidth c1 = blk_dwidth c2
     else blk_dwidth c1 = blk_dwidth b1 \<and> blk_dwidth c2 = blk_dwidth b2) \<and>
    (if \<exists>l\<in>set hdr. startswith (strip l) ''BBX ''
     then blk_bbx_w c1 = blk_bbx_w c2 \<and> blk_bbx_h c1 = blk_bbx_h c2 \<and>
          blk_bbx_x c1 = blk_bbx_x c2 \<and> blk_bbx_y c1 = blk_bbx_y c2
     else blk_bbx_w c1 = blk_bbx_w b1 \<and> blk_bbx_h c1 = blk_bbx_h b1 \<and>
          blk_bbx_x c1 = blk_bbx_x b1 \<and> blk_bbx_y c1 = blk_bbx_y b1 \<and>
          blk_bbx_w c2 = blk_bbx_w b2 \<and> blk_bbx_h c2 = blk_bbx_h b2 \<and>
          blk_bbx_x c2 = blk_bbx_x b2 \<and> blk_bbx_y c2 = blk_bbx_y b2)"
  using assms
proof (induction hdr arbitrary: b1 b2)
  case Nil
  then show ?case by simp
next
  case (Cons l hdr)
  have ok: "\<not> isl (glyph_field (strip l) new_block)"
    and rest: "\<forall>l\<in>set hdr. \<not> isl (glyph_field (strip l) new_block)"
    using Cons.prems by simp_all
  have "\<not> isl (glyph_field (strip l) b1)" "\<not> isl (glyph_field (strip l) b2)"
    using ok glyph_field_raises by blast+
  then obtain d1 d2 where d: "glyph_field (strip l) b1 = Inr d1" "glyph_field (strip l) b2 = Inr d2"
    by (metis isl_def sum.exhaust_sel sum.collapse(2))
  note first = glyph_field_pair[OF d]
  from Cons.IH[OF rest, of d1 d2] obtain c1 c2 where
    c: "glyph_fields hdr d1 = Inr c1" "glyph_fields hdr d2 = Inr c2"
    and more: "blk_rows c1 = blk_rows d1 \<and> blk_rows c2 = blk_rows d2 \<and>
    (if \<exists>l\<in>set hdr. startswith (strip l) ''ENCODING '' then blk_encoding c1 = blk_encoding c2
     else blk_encoding c1 = blk_encoding d1 \<and> blk_encoding c2 = blk_encoding d2) \<and>
    (if \<exists>l\<in>set hdr. startswith (strip l) ''DWIDTH '' then blk_dwidth c1 = blk_dwidth c2
     else blk_dwidth c1 = blk_dwidth d1 \<and> blk_dwidth c2 = blk_dwidth d2) \<and>
    (if \<exists>l\<in>set hdr. startswith (strip l) ''BBX ''
     then blk_bbx_w c1 = blk_bbx_w c2 \<and> blk_bbx_h c1 = blk_bbx_h c2 \<and>
          blk_bbx_x c1 = blk_bbx_x c2 \<and> blk_bbx_y c1 = blk_bbx_y c2
     else blk_bbx_w c1 = blk_bbx_w d1 \<and> blk_bbx_h c1 = blk_bbx_h d1 \<and>
          blk_bbx_x c1 = blk_bbx_x d1 \<and> blk_bbx_y c1 = blk_bbx_y d1 \<and>
          blk_bbx_w c2 = blk_bbx_w d2 \<and> blk_bbx_h c2 = blk_bbx_h d2 \<and>
          blk_bbx_x c2 = blk_bbx_x d2 \<and> blk_bbx_y c2 = blk_bbx_y d2)"
    by blast
  have run: "glyph_fields (l # hdr) b1 = Inr c1" "glyph_fields (l # hdr) b2 = Inr c2"
    using d c by simp_all
  define E where "E = (\<exists>l\<in>set hdr. startswith (strip l) ''ENCODING '')"
  define D where "D = (\<exists>l\<in>set hdr. startswith (strip l) ''DWIDTH '')"
  define X where "X = (\<exists>l\<in>set hdr. startswith (strip l) ''BBX '')"
  define le where "le = startswith (strip l) ''ENCODING ''"
  define ld where "ld = startswith (strip l) ''DWIDTH ''"
  define lx where "lx = startswith (strip l) ''BBX ''"
  have ex: "(\<exists>l\<in>set (l # hdr). startswith (strip l) ''ENCODING '') \<longleftrightarrow> le \<or> E"
    "(\<exists>l\<in>set (l # hdr). startswith (strip l) ''DWIDTH '') \<longleftrightarrow> ld \<or> D"
    "(\<exists>l\<in>set (l # hdr). startswith (strip l) ''BBX '') \<longleftrightarrow> lx \<or> X"
    by (simp_all add: E_def D_def X_def le_def ld_def lx_def)
  have f_rows: "blk_rows d1 = blk_rows b1" "blk_rows d2 = blk_rows b2" using first by simp_all
  have f_enc: "if le then blk_encoding d1 = blk_encoding d2
               else blk_encoding d1 = blk_encoding b1 \<and> blk_encoding d2 = blk_encoding b2"
    using first unfolding le_def by simp
  have f_dw: "if ld then blk_dwidth d1 = blk_dwidth d2
               else blk_dwidth d1 = blk_dwidth b1 \<and> blk_dwidth d2 = blk_dwidth b2"
    using first unfolding ld_def by simp
  have f_bbx: "if lx
     then blk_bbx_w d1 = blk_bbx_w d2 \<and> blk_bbx_h d1 = blk_bbx_h d2 \<and>
          blk_bbx_x d1 = blk_bbx_x d2 \<and> blk_bbx_y d1 = blk_bbx_y d2
     else blk_bbx_w d1 = blk_bbx_w b1 \<and> blk_bbx_h d1 = blk_bbx_h b1 \<and>
          blk_bbx_x d1 = blk_bbx_x b1 \<and> blk_bbx_y d1 = blk_bbx_y b1 \<and>
          blk_bbx_w d2 = blk_bbx_w b2 \<and> blk_bbx_h d2 = blk_bbx_h b2 \<and>
          blk_bbx_x d2 = blk_bbx_x b2 \<and> blk_bbx_y d2 = blk_bbx_y b2"
    using first unfolding lx_def by simp
  have m_rows: "blk_rows c1 = blk_rows d1" "blk_rows c2 = blk_rows d2" using more by simp_all
  have m_enc: "if E then blk_encoding c1 = blk_encoding c2
               else blk_encoding c1 = blk_encoding d1 \<and> blk_encoding c2 = blk_encoding d2"
    using more unfolding E_def by simp
  have m_dw: "if D then blk_dwidth c1 = blk_dwidth c2
               else blk_dwidth c1 = blk_dwidth d1 \<and> blk_dwidth c2 = blk_dwidth d2"
    using more unfolding D_def by simp
  have m_bbx: "if X
     then blk_bbx_w c1 = blk_bbx_w c2 \<and> blk_bbx_h c1 = blk_bbx_h c2 \<and>
          blk_bbx_x c1 = blk_bbx_x c2 \<and> blk_bbx_y c1 = blk_bbx_y c2
     else blk_bbx_w c1 = blk_bbx_w d1 \<and> blk_bbx_h c1 = blk_bbx_h d1 \<and>
          blk_bbx_x c1 = blk_bbx_x d1 \<and> blk_bbx_y c1 = blk_bbx_y d1 \<and>
          blk_bbx_w c2 = blk_bbx_w d2 \<and> blk_bbx_h c2 = blk_bbx_h d2 \<and>
          blk_bbx_x c2 = blk_bbx_x d2 \<and> blk_bbx_y c2 = blk_bbx_y d2"
    using more unfolding X_def by simp
  have g_rows: "blk_rows c1 = blk_rows b1" "blk_rows c2 = blk_rows b2"
    using f_rows m_rows by simp_all
  have g_enc: "if le \<or> E then blk_encoding c1 = blk_encoding c2
               else blk_encoding c1 = blk_encoding b1 \<and> blk_encoding c2 = blk_encoding b2"
    using f_enc m_enc by (cases E; cases le) simp_all
  have g_dw: "if ld \<or> D then blk_dwidth c1 = blk_dwidth c2
               else blk_dwidth c1 = blk_dwidth b1 \<and> blk_dwidth c2 = blk_dwidth b2"
    using f_dw m_dw by (cases D; cases ld) simp_all
  have g_bbx: "if lx \<or> X
     then blk_bbx_w c1 = blk_bbx_w c2 \<and> blk_bbx_h c1 = blk_bbx_h c2 \<and>
          blk_bbx_x c1 = blk_bbx_x c2 \<and> blk_bbx_y c1 = blk_bbx_y c2
     else blk_bbx_w c1 = blk_bbx_w b1 \<and> blk_bbx_h c1 = blk_bbx_h b1 \<and>
          blk_bbx_x c1 = blk_bbx_x b1 \<and> blk_bbx_y c1 = blk_bbx_y b1 \<and>
          blk_bbx_w c2 = blk_bbx_w b2 \<and> blk_bbx_h c2 = blk_bbx_h b2 \<and>
          blk_bbx_x c2 = blk_bbx_x b2 \<and> blk_bbx_y c2 = blk_bbx_y b2"
    using f_bbx m_bbx by (cases X; cases lx) simp_all
  show ?case
    unfolding ex using run g_rows g_enc g_dw g_bbx by blast
qed

lemma glyph_fields_append:
  "glyph_fields (xs @ ys) blk =
     (case glyph_fields xs blk of Inl e \<Rightarrow> Inl e | Inr blk' \<Rightarrow> glyph_fields ys blk')"
  by (induction xs arbitrary: blk) (auto split: sum.splits)

lemma startchar_line:
  assumes "startswith g ''STARTCHAR ''"
  shows "g \<noteq> ''BITMAP''" "glyph_field g blk = Inr blk"
    "\<not> startswith g ''FONTBOUNDINGBOX ''" "\<not> startswith g ''FONT_ASCENT ''"
    "\<not> startswith g ''FONT_DESCENT ''" "\<not> startswith g ''CHARS ''"
proof -
  have n: "\<not> startswith g ''ENCODING ''" "\<not> startswith g ''DWIDTH ''" "\<not> startswith g ''BBX ''"
    using assms by (auto dest: startswith_differ)
  show "glyph_field g blk = Inr blk" using n by (simp add: glyph_field_def)
  show "g \<noteq> ''BITMAP''" using startswith_hd[OF assms] by auto
  show "\<not> startswith g ''FONTBOUNDINGBOX ''" "\<not> startswith g ''FONT_ASCENT ''"
    "\<not> startswith g ''FONT_DESCENT ''" "\<not> startswith g ''CHARS ''"
    using assms by (auto dest: startswith_differ)
qed

lemma parse_loop_startchar:
  assumes "startswith (strip s) ''STARTCHAR ''"
  shows "parse_loop (s # ls) props glyphs =
           (case scan_glyph ls new_block of
              Inl e \<Rightarrow> Inl e
            | Inr (blk, rest) \<Rightarrow> parse_loop (drop 1 rest) props (retain blk glyphs))"
  using assms startchar_line(3-6)[OF assms] by (simp add: Let_def)

lemma block_equal:
  assumes "blk_encoding a = blk_encoding b" "blk_dwidth a = blk_dwidth b"
    "blk_bbx_w a = blk_bbx_w b" "blk_bbx_h a = blk_bbx_h b"
    "blk_bbx_x a = blk_bbx_x b" "blk_bbx_y a = blk_bbx_y b" "blk_rows a = blk_rows b"
  shows "a = (b :: block)"
  using assms by (intro block.equality) simp_all

lemma fields_ok:
  assumes "\<forall>l\<in>set ls. strip l \<noteq> ''BITMAP'' \<and> \<not> isl (scan_glyph [l] new_block)"
  shows "\<forall>l\<in>set ls. strip l \<noteq> ''BITMAP''" "\<forall>l\<in>set ls. \<not> isl (glyph_field (strip l) new_block)"
  using assms scan_single by auto

lemma scan_absorbs:
  assumes s': "startswith (strip s') ''STARTCHAR ''"
    and body: "\<forall>l\<in>set body. strip l \<noteq> ''BITMAP'' \<and> \<not> isl (scan_glyph [l] new_block)"
    and hdr: "\<forall>l\<in>set hdr. strip l \<noteq> ''BITMAP'' \<and> \<not> isl (scan_glyph [l] new_block)"
    and e: "\<exists>l\<in>set hdr. startswith (strip l) ''ENCODING ''"
    and d: "\<exists>l\<in>set hdr. startswith (strip l) ''DWIDTH ''"
    and x: "\<exists>l\<in>set hdr. startswith (strip l) ''BBX ''"
  shows "scan_glyph (body @ s' # hdr @ tail) new_block = scan_glyph (hdr @ tail) new_block"
proof -
  note bo = fields_ok[OF body] and ho = fields_ok[OF hdr]
  from glyph_fields_agree[OF bo(2), of new_block new_block] obtain b1 where
    b1: "glyph_fields body new_block = Inr b1" "blk_rows b1 = blk_rows new_block" by auto
  from glyph_fields_agree[OF ho(2), of b1 new_block] e d x obtain c1 c2 where
    c: "glyph_fields hdr b1 = Inr c1" "glyph_fields hdr new_block = Inr c2"
    and r: "blk_rows c1 = blk_rows b1" "blk_rows c2 = blk_rows new_block"
    and f: "blk_encoding c1 = blk_encoding c2" "blk_dwidth c1 = blk_dwidth c2"
      "blk_bbx_w c1 = blk_bbx_w c2" "blk_bbx_h c1 = blk_bbx_h c2"
      "blk_bbx_x c1 = blk_bbx_x c2" "blk_bbx_y c1 = blk_bbx_y c2"
    by auto
  have eq: "c1 = c2" using f r b1(2) by (intro block_equal) simp_all
  have all: "\<forall>l\<in>set (body @ s' # hdr). strip l \<noteq> ''BITMAP''"
    using bo(1) ho(1) startchar_line(1)[OF s'] by auto
  have "glyph_fields (body @ s' # hdr) new_block = Inr c1"
    using b1(1) c(1) startchar_line(2)[OF s'] by (simp add: glyph_fields_append)
  then have left: "scan_glyph ((body @ s' # hdr) @ tail) new_block = scan_glyph tail c1"
    using scan_glyph_fields[OF all, of tail new_block] by simp
  have right: "scan_glyph (hdr @ tail) new_block = scan_glyph tail c2"
    using scan_glyph_fields[OF ho(1), of tail new_block] c(2) by simp
  show ?thesis using left right eq by simp
qed

text \<open>
  Claim C3, amended. Take a \<^verbatim>\<open>STARTCHAR\<close> block with no \<^verbatim>\<open>BITMAP\<close> marker, every line of which
  scans without raising, followed by a block that declares \<^verbatim>\<open>ENCODING\<close>, \<^verbatim>\<open>DWIDTH\<close> and
  \<^verbatim>\<open>BBX\<close> before its own \<^verbatim>\<open>BITMAP\<close> marker. The inner loop runs on through the \<^verbatim>\<open>ENDCHAR\<close>
  and the next \<^verbatim>\<open>STARTCHAR\<close>, the fields of the following block overwrite those of the
  offending one, and the parse gives exactly what it gives for the source without the
  offending block: no record for that block, and the record of every block after it.
\<close>

theorem block_without_bitmap_absorbed:
  assumes "startswith (strip s) ''STARTCHAR ''" and "startswith (strip s') ''STARTCHAR ''"
    and "\<forall>l\<in>set body. strip l \<noteq> ''BITMAP'' \<and> \<not> isl (scan_glyph [l] new_block)"
    and "\<forall>l\<in>set hdr. strip l \<noteq> ''BITMAP'' \<and> \<not> isl (scan_glyph [l] new_block)"
    and "\<exists>l\<in>set hdr. startswith (strip l) ''ENCODING ''"
    and "\<exists>l\<in>set hdr. startswith (strip l) ''DWIDTH ''"
    and "\<exists>l\<in>set hdr. startswith (strip l) ''BBX ''"
  shows "parse_loop (s # body @ s' # hdr @ tail) props glyphs
           = parse_loop (s' # hdr @ tail) props glyphs \<and>
         parse_bdf (s # body @ s' # hdr @ tail) = parse_bdf (s' # hdr @ tail)"
proof -
  have "parse_loop (s # body @ s' # hdr @ tail) p g = parse_loop (s' # hdr @ tail) p g" for p g
    using parse_loop_startchar[OF assms(1), of "body @ s' # hdr @ tail" p g]
      parse_loop_startchar[OF assms(2), of "hdr @ tail" p g]
      scan_absorbs[OF assms(2-7), of tail]
    by simp
  then show ?thesis by (simp add: parse_bdf_def)
qed

lemma sample_absorb_hyps:
  "\<forall>l\<in>set [''ENCODING 65'', ''DWIDTH 3 0'', ''ENDCHAR''].
      strip l \<noteq> ''BITMAP'' \<and> \<not> isl (scan_glyph [l] new_block)"
  "\<forall>l\<in>set [''ENCODING 66'', ''DWIDTH 6 0'', ''BBX 1 1 0 0''].
      strip l \<noteq> ''BITMAP'' \<and> \<not> isl (scan_glyph [l] new_block)"
  "startswith (strip ''STARTCHAR bad'') ''STARTCHAR ''"
  "startswith (strip ''STARTCHAR B'') ''STARTCHAR ''"
  "\<exists>l\<in>set [''ENCODING 66'', ''DWIDTH 6 0'', ''BBX 1 1 0 0'']. startswith (strip l) ''ENCODING ''"
  "\<exists>l\<in>set [''ENCODING 66'', ''DWIDTH 6 0'', ''BBX 1 1 0 0'']. startswith (strip l) ''DWIDTH ''"
  "\<exists>l\<in>set [''ENCODING 66'', ''DWIDTH 6 0'', ''BBX 1 1 0 0'']. startswith (strip l) ''BBX ''"
  by code_simp+

lemma sample_good_block:
  "parse_bdf [''STARTCHAR B'', ''ENCODING 66'', ''DWIDTH 6 0'', ''BBX 1 1 0 0'',
              ''BITMAP'', ''80'', ''ENDCHAR'']
     = Inr (no_properties,
            [\<lparr>encoding = 66, dwidth = 6, bbx_w = 1, bbx_h = 1, bbx_x = 0, bbx_y = 0,
               bitmap = [128]\<rparr>])"
  by code_simp

text \<open>
  A block with an encoding and a device width but no bitmap, in front of a complete block.
\<close>

theorem block_without_bitmap_absorbed_witness:
  "parse_bdf [''STARTCHAR bad'', ''ENCODING 65'', ''DWIDTH 3 0'', ''ENDCHAR'',
              ''STARTCHAR B'', ''ENCODING 66'', ''DWIDTH 6 0'', ''BBX 1 1 0 0'',
              ''BITMAP'', ''80'', ''ENDCHAR'']
     = Inr (no_properties,
            [\<lparr>encoding = 66, dwidth = 6, bbx_w = 1, bbx_h = 1, bbx_x = 0, bbx_y = 0,
               bitmap = [128]\<rparr>])"
  using block_without_bitmap_absorbed[OF sample_absorb_hyps(3,4,1,2,5,6,7),
          of "[''BITMAP'', ''80'', ''ENDCHAR'']" no_properties "[]"]
  by (simp add: sample_good_block)

text \<open>
  Claim C3, as stated, fails. A block whose \<^verbatim>\<open>ENCODING\<close> is not a number aborts the whole
  parse with \<^verbatim>\<open>ValueError\<close>: nothing catches the exception of \<^verbatim>\<open>int\<close>, and the complete
  block after it yields no record. And a block without \<^verbatim>\<open>BITMAP\<close> is not skipped but merged
  into the next one: in front of a block that declares no \<^verbatim>\<open>DWIDTH\<close>, its device width 3
  ends up in the record of that block, which alone would have the width 0.
\<close>

theorem malformed_block_counterexample:
  "parse_bdf [''STARTCHAR bad'', ''ENCODING x'', ''BITMAP'', ''ENDCHAR'',
              ''STARTCHAR B'', ''ENCODING 66'', ''DWIDTH 6 0'', ''BBX 1 1 0 0'',
              ''BITMAP'', ''80'', ''ENDCHAR'']
     = Inl ValueError \<and>
   parse_bdf [''STARTCHAR bad'', ''ENCODING 65'', ''DWIDTH 3 0'', ''ENDCHAR'',
              ''STARTCHAR B'', ''ENCODING 66'', ''BBX 1 1 0 0'', ''BITMAP'', ''80'', ''ENDCHAR'']
     = Inr (no_properties,
            [\<lparr>encoding = 66, dwidth = 3, bbx_w = 1, bbx_h = 1, bbx_x = 0, bbx_y = 0,
               bitmap = [128]\<rparr>]) \<and>
   parse_bdf [''STARTCHAR B'', ''ENCODING 66'', ''BBX 1 1 0 0'', ''BITMAP'', ''80'', ''ENDCHAR'']
     = Inr (no_properties,
            [\<lparr>encoding = 66, dwidth = 0, bbx_w = 1, bbx_h = 1, bbx_x = 0, bbx_y = 0,
               bitmap = [128]\<rparr>])"
  by code_simp

end
